theory Spec2Isabelle
  imports Main "HOL-Library.Log_Nat"
begin

section \<open>JavaScript numbers\<close>

text \<open>
  \<open>lib/unit.js\<close> computes with JavaScript Numbers, that is IEEE 754 binary64 values, and
  sends them through \<open>Number.prototype.toFixed\<close>, \<open>parseInt\<close> and \<open>parseFloat\<close>. A finite
  Number is modelled by the rational it denotes; every arithmetic result is rounded to the
  nearest binary64 value, ties to even, by \<open>fl\<close>. The two zeros are one value here:
  JavaScript's \<open>==\<close> and \<open>===\<close> do not tell them apart, and the module never divides by a
  zero (a rate is checked to be positive, the scale factors are non-zero). The built-in
  functions follow the ECMAScript specification; where it leaves the last digits of a long
  decimal string to the implementation, the string is read exactly and rounded once.
\<close>

datatype number = Finite rat | PosInfinity | NegInfinity | NaN

definition ipow :: "rat \<Rightarrow> int \<Rightarrow> rat" where
  \<comment> \<open>a power with an integer exponent\<close>
  "ipow b e = (if 0 \<le> e then b ^ nat e else 1 / b ^ nat (- e))"

definition ilog2 :: "rat \<Rightarrow> int" where
  \<comment> \<open>the binary exponent of a positive rational: \<open>ipow 2 (ilog2 x) \<le> x < ipow 2 (ilog2 x + 1)\<close>\<close>
  "ilog2 x = (if 1 \<le> x then bitlen \<lfloor>x\<rfloor> - 1 else - bitlen (\<lceil>1 / x\<rceil> - 1))"

definition round_half_even :: "rat \<Rightarrow> int" where
  "round_half_even y =
     (let f = \<lfloor>y\<rfloor>; d = y - of_int f
      in if d < 1 / 2 then f else if 1 / 2 < d then f + 1 else if even f then f else f + 1)"

definition quantum :: "rat \<Rightarrow> rat" where
  \<comment> \<open>the spacing of binary64 values around \<open>x\<close>: 53 significant bits, least exponent \<open>-1074\<close>\<close>
  "quantum x = ipow 2 (max (ilog2 \<bar>x\<bar> - 52) (- 1074))"

definition fl :: "rat \<Rightarrow> number" where
  \<comment> \<open>round to nearest, ties to even; a result of magnitude \<open>2 ^ 1024\<close> or more overflows\<close>
  "fl x =
     (if x = 0 then Finite 0
      else let q = quantum x; y = of_int (round_half_even (x / q)) * q
           in if 2 ^ 1024 \<le> y then PosInfinity
              else if y \<le> - (2 ^ 1024) then NegInfinity
              else Finite y)"

definition is_double :: "rat \<Rightarrow> bool" where
  "is_double x = (fl x = Finite x)"

definition literal :: "rat \<Rightarrow> number" where
  \<comment> \<open>a decimal literal of the source text, such as \<open>1.3\<close> or \<open>1e8\<close>\<close>
  "literal x = fl x"

fun js_mul :: "number \<Rightarrow> number \<Rightarrow> number" where
  "js_mul NaN _ = NaN"
| "js_mul _ NaN = NaN"
| "js_mul (Finite a) (Finite b) = fl (a * b)"
| "js_mul (Finite a) PosInfinity = (if a = 0 then NaN else if 0 < a then PosInfinity else NegInfinity)"
| "js_mul (Finite a) NegInfinity = (if a = 0 then NaN else if 0 < a then NegInfinity else PosInfinity)"
| "js_mul PosInfinity (Finite b) = (if b = 0 then NaN else if 0 < b then PosInfinity else NegInfinity)"
| "js_mul NegInfinity (Finite b) = (if b = 0 then NaN else if 0 < b then NegInfinity else PosInfinity)"
| "js_mul PosInfinity PosInfinity = PosInfinity"
| "js_mul PosInfinity NegInfinity = NegInfinity"
| "js_mul NegInfinity PosInfinity = NegInfinity"
| "js_mul NegInfinity NegInfinity = PosInfinity"

fun js_div :: "number \<Rightarrow> number \<Rightarrow> number" where
  "js_div NaN _ = NaN"
| "js_div _ NaN = NaN"
| "js_div (Finite a) (Finite b) =
     (if b = 0 then (if a = 0 then NaN else if 0 < a then PosInfinity else NegInfinity)
      else fl (a / b))"
| "js_div (Finite a) PosInfinity = Finite 0"
| "js_div (Finite a) NegInfinity = Finite 0"
| "js_div PosInfinity (Finite b) = (if 0 \<le> b then PosInfinity else NegInfinity)"
| "js_div NegInfinity (Finite b) = (if 0 \<le> b then NegInfinity else PosInfinity)"
| "js_div PosInfinity PosInfinity = NaN"
| "js_div PosInfinity NegInfinity = NaN"
| "js_div NegInfinity PosInfinity = NaN"
| "js_div NegInfinity NegInfinity = NaN"

fun js_le_zero :: "number \<Rightarrow> bool" where
  \<comment> \<open>\<open>x <= 0\<close>: false for NaN\<close>
  "js_le_zero (Finite a) = (a \<le> 0)"
| "js_le_zero NegInfinity = True"
| "js_le_zero PosInfinity = False"
| "js_le_zero NaN = False"

fun js_gt_zero :: "number \<Rightarrow> bool" where
  \<comment> \<open>\<open>x > 0\<close>: false for NaN\<close>
  "js_gt_zero (Finite a) = (0 < a)"
| "js_gt_zero PosInfinity = True"
| "js_gt_zero NegInfinity = False"
| "js_gt_zero NaN = False"

section \<open>Decimal strings\<close>

definition digit_char :: "nat \<Rightarrow> char" where
  "digit_char d = char_of (48 + d)"

definition is_digit :: "char \<Rightarrow> bool" where
  "is_digit c = (48 \<le> (of_char c :: nat) \<and> (of_char c :: nat) \<le> 57)"

definition digit_val :: "char \<Rightarrow> nat" where
  "digit_val c = of_char c - 48"

fun decimal :: "nat \<Rightarrow> string" where
  \<comment> \<open>the digits of the decimal representation, in order, with no leading zeroes\<close>
  "decimal n = (if n < 10 then [digit_char n] else decimal (n div 10) @ [digit_char (n mod 10)])"

definition digits_val :: "string \<Rightarrow> nat" where
  "digits_val ds = foldl (\<lambda>a c. 10 * a + digit_val c) 0 ds"

definition round_half_away :: "rat \<Rightarrow> int" where
  \<comment> \<open>the nearest integer, a tie going away from zero\<close>
  "round_half_away x = (if 0 \<le> x then \<lfloor>x + 1 / 2\<rfloor> else - \<lfloor>- x + 1 / 2\<rfloor>)"

subsection \<open>Number::toString\<close>

text \<open>
  ECMAScript's \<open>Number::toString\<close> (radix 10) of a positive finite \<open>x\<close> picks integers
  \<open>n\<close>, \<open>k\<close>, \<open>s\<close> with \<open>k \<ge> 1\<close>, \<open>10 ^ (k - 1) \<le> s < 10 ^ k\<close>, \<open>s * ipow 10 (n - k)\<close> rounding to
  \<open>x\<close>, and \<open>k\<close> as small as possible; among several \<open>s\<close> the one closest to \<open>x\<close>, the even
  one on a tie. \<open>decimal_exponent x\<close> is the \<open>n\<close> of \<open>x\<close> itself. The search for \<open>k\<close> runs
  up to 17 digits (which suffice for every binary64 value) or up to the number of
  integer digits of \<open>x\<close>, whichever is larger.
\<close>

definition decimal_exponent :: "rat \<Rightarrow> int" where
  \<comment> \<open>for positive \<open>x\<close>: \<open>ipow 10 (decimal_exponent x - 1) \<le> x < ipow 10 (decimal_exponent x)\<close>\<close>
  "decimal_exponent x =
     (if 1 \<le> x then int (floorlog 10 (nat \<lfloor>x\<rfloor>))
      else 1 - int (floorlog 10 (nat (\<lceil>1 / x\<rceil> - 1))))"

definition candidates :: "rat \<Rightarrow> nat \<Rightarrow> int list" where
  \<comment> \<open>the \<open>k\<close>-digit significands next to \<open>x\<close> that round back to \<open>x\<close>, the preferred one first\<close>
  "candidates x k =
     (let sc = ipow 10 (decimal_exponent x - int k);
          lo = \<lfloor>x / sc\<rfloor>;
          hi = lo + 1;
          dl = x - of_int lo * sc;
          dh = of_int hi * sc - x;
          pref = (if dl < dh then [lo, hi] else if dh < dl then [hi, lo]
                  else if even lo then [lo, hi] else [hi, lo])
      in filter (\<lambda>s. fl (of_int s * sc) = Finite x) pref)"

definition shortest_digits :: "rat \<Rightarrow> nat \<times> int" where
  \<comment> \<open>\<open>(s, n)\<close> for positive \<open>x\<close>; a significand \<open>10 ^ k\<close> is \<open>10 ^ (k - 1)\<close> one exponent higher\<close>
  "shortest_digits x =
     (let n = decimal_exponent x;
          bound = max 17 (nat n);
          k = (case find (\<lambda>k. candidates x k \<noteq> []) [1 ..< Suc bound] of
                 Some k \<Rightarrow> k | None \<Rightarrow> bound);
          s = (case candidates x k of s # _ \<Rightarrow> s | [] \<Rightarrow> \<lfloor>x / ipow 10 (n - int k)\<rfloor>)
      in if s = 10 ^ k then (10 ^ (k - 1), n + 1) else (nat s, n))"

definition exponent_part :: "int \<Rightarrow> string" where
  \<comment> \<open>\<open>e\<close>, the sign of \<open>n - 1\<close> and its decimal digits\<close>
  "exponent_part n =
     CHR ''e'' # (if 0 \<le> n - 1 then CHR ''+'' else CHR ''-'') # decimal (nat \<bar>n - 1\<bar>)"

definition positive_toString :: "rat \<Rightarrow> string" where
  "positive_toString x =
     (let (s, n) = shortest_digits x; ds = decimal s; k = int (length ds)
      in if k \<le> n \<and> n \<le> 21 then ds @ replicate (nat (n - k)) CHR ''0''
         else if 0 < n \<and> n \<le> 21 then take (nat n) ds @ CHR ''.'' # drop (nat n) ds
         else if - 6 < n \<and> n \<le> 0 then ''0.'' @ replicate (nat (- n)) CHR ''0'' @ ds
         else if k = 1 then ds @ exponent_part n
         else hd ds # CHR ''.'' # tl ds @ exponent_part n)"

fun Number_toString :: "number \<Rightarrow> string" where
  "Number_toString NaN = ''NaN''"
| "Number_toString PosInfinity = ''Infinity''"
| "Number_toString NegInfinity = ''-Infinity''"
| "Number_toString (Finite x) =
     (if x = 0 then ''0''
      else if x < 0 then CHR ''-'' # positive_toString (- x)
      else positive_toString x)"

subsection \<open>Number.prototype.toFixed\<close>

fun toFixed :: "number \<Rightarrow> nat \<Rightarrow> string" where
  \<comment> \<open>\<open>x.toFixed(f)\<close>; every call of the module has \<open>f \<le> 8\<close>, so no RangeError\<close>
  "toFixed (Finite x) f =
     (let s = (if x < 0 then ''-'' else '''');
          x = (if x < 0 then - x else x)
      in if 10 ^ 21 \<le> x then s @ Number_toString (Finite x)
         else
           let n = nat \<lfloor>x * 10 ^ f + 1 / 2\<rfloor>;
               m = decimal n;
               m = (if f = 0 then m
                    else let m = (if length m \<le> f then replicate (f + 1 - length m) CHR ''0'' @ m
                                  else m);
                             k = length m
                         in take (k - f) m @ CHR ''.'' # drop (k - f) m)
           in s @ m)"
| "toFixed v f = Number_toString v"

subsection \<open>parseInt and parseFloat\<close>

definition is_space :: "char \<Rightarrow> bool" where
  \<comment> \<open>the white space and line terminators among the 8-bit characters\<close>
  "is_space c = ((of_char c :: nat) \<in> {9, 10, 11, 12, 13, 32})"

definition hex_val :: "char \<Rightarrow> nat option" where
  "hex_val c =
     (let n = (of_char c :: nat)
      in if 48 \<le> n \<and> n \<le> 57 then Some (n - 48)
         else if 97 \<le> n \<and> n \<le> 102 then Some (n - 87)
         else if 65 \<le> n \<and> n \<le> 70 then Some (n - 55)
         else None)"

definition split_sign :: "string \<Rightarrow> bool \<times> string" where
  \<comment> \<open>a leading \<open>+\<close> or \<open>-\<close> is removed; the flag says whether it was \<open>-\<close>\<close>
  "split_sign s =
     (case s of
        c # r \<Rightarrow> if c = CHR ''-'' then (True, r) else if c = CHR ''+'' then (False, r)
                 else (False, s)
      | [] \<Rightarrow> (False, s))"

definition signed :: "bool \<Rightarrow> rat \<Rightarrow> number" where
  \<comment> \<open>the Number value of a signed mathematical value\<close>
  "signed neg v = fl (if neg then - v else v)"

definition parseInt :: "string \<Rightarrow> number" where
  \<comment> \<open>\<open>parseInt(string)\<close> with no radix: base 10, or base 16 after \<open>0x\<close>\<close>
  "parseInt str =
     (let (neg, s) = split_sign (dropWhile is_space str)
      in if take 2 s = ''0x'' \<or> take 2 s = ''0X'' then
           (let z = takeWhile (\<lambda>c. hex_val c \<noteq> None) (drop 2 s)
            in if z = [] then NaN
               else signed neg (of_nat (foldl (\<lambda>a c. 16 * a + the (hex_val c)) 0 z)))
         else
           (let z = takeWhile is_digit s
            in if z = [] then NaN else signed neg (of_nat (digits_val z))))"

definition parse_exponent :: "string \<Rightarrow> int" where
  \<comment> \<open>the value of an ExponentPart at the head of the string, 0 when there is none\<close>
  "parse_exponent s =
     (case s of
        c # r \<Rightarrow>
          if c = CHR ''e'' \<or> c = CHR ''E'' then
            (let (neg, t) = split_sign r; ds = takeWhile is_digit t
             in if ds = [] then 0
                else if neg then - int (digits_val ds) else int (digits_val ds))
          else 0
      | [] \<Rightarrow> 0)"

definition parseFloat :: "string \<Rightarrow> number" where
  \<comment> \<open>the Number value of the longest prefix that is a StrDecimalLiteral\<close>
  "parseFloat str =
     (let (neg, s) = split_sign (dropWhile is_space str)
      in if take 8 s = ''Infinity'' then (if neg then NegInfinity else PosInfinity)
         else
           let ip = takeWhile is_digit s;
               r = dropWhile is_digit s;
               (fp, r) = (case r of
                            c # t \<Rightarrow> if c = CHR ''.'' then (takeWhile is_digit t, dropWhile is_digit t)
                                     else ([], r)
                          | [] \<Rightarrow> ([], r))
           in if ip = [] \<and> fp = [] then NaN
              else signed neg (of_nat (digits_val (ip @ fp)) / 10 ^ length fp
                                 * ipow 10 (parse_exponent r)))"

section \<open>The unit table\<close>

text \<open>
  \<open>UNITS\<close> is an object literal: \<open>UNITS[code]\<close> finds the six own entries and, for any
  other key, whatever \<open>Object.prototype\<close> holds under that name. Such an inherited member
  is a function or an object: it is truthy, and its properties \<open>0\<close> and \<open>1\<close> are
  \<open>undefined\<close>.
\<close>

definition UNITS_entries :: "(string \<times> rat \<times> nat) list" where
  "UNITS_entries =
     [(''HC'', 10 ^ 8, 8),
      (''mHC'', 10 ^ 5, 5),
      (''uHC'', 10 ^ 2, 2),
      (''bits'', 10 ^ 2, 2),
      (''dbits'', 10 ^ 2, 2),
      (''atoms'', 1, 0)]"

definition Object_prototype :: "string list" where
  "Object_prototype =
     [''constructor'', ''hasOwnProperty'', ''isPrototypeOf'', ''propertyIsEnumerable'',
      ''toLocaleString'', ''toString'', ''valueOf'', ''__proto__'',
      ''__defineGetter__'', ''__defineSetter__'', ''__lookupGetter__'', ''__lookupSetter__'']"

datatype property = Undefined | Entry rat nat | Inherited

definition UNITS :: "string \<Rightarrow> property" where
  "UNITS code =
     (case map_of UNITS_entries code of
        Some (scale, precision) \<Rightarrow> Entry scale precision
      | None \<Rightarrow> if code \<in> set Object_prototype then Inherited else Undefined)"

definition Object_keys_UNITS :: "string list" where
  "Object_keys_UNITS = map fst UNITS_entries"

section \<open>Unit\<close>

text \<open>
  The arguments have the types that the module documents: an amount is a Number, the second
  argument of the constructor and the argument of \<open>to\<close> is a String or a Number, and what
  \<open>fromObject\<close> receives is an object with the keys \<open>amount\<close> and \<open>code\<close> or a value that is
  no object. What a function throws is the \<open>Inl\<close> of its result.
\<close>

datatype error = InvalidRate number | UnknownCode string | InvalidArgument string
  \<comment> \<open>Modelled from the spec: \<open>lib/errors\<close> is not among the sources; the spec describes
      named error kinds raised with a payload, the offending rate or code, and an
      argument-precondition failure\<close>

datatype code_arg = Code string | Rate number
  \<comment> \<open>the second argument, \<open>{String|Number}\<close>: a unit code or an exchange rate\<close>

record unit_instance =
  unit_value :: number  \<comment> \<open>\<open>this._value\<close>\<close>

record unit_object =
  object_amount :: number  \<comment> \<open>the key \<open>amount\<close>\<close>
  object_code :: string  \<comment> \<open>the key \<open>code\<close>\<close>

datatype data =
    JObject number code_arg  \<comment> \<open>an object with the keys \<open>amount\<close> and \<open>code\<close>\<close>
  | JUndefined | JNull | JBoolean bool | JNumber number | JString string

definition Unit_HC :: string where "Unit_HC = ''HC''"

definition Unit_mHC :: string where "Unit_mHC = ''mHC''"

definition Unit_uHC :: string where "Unit_uHC = ''uHC''"

definition Unit_bits :: string where "Unit_bits = ''bits''"

definition Unit_dbits :: string where "Unit_dbits = ''dbits''"

definition Unit_atoms :: string where "Unit_atoms = ''atoms''"

definition Unit_from :: "number \<Rightarrow> string \<Rightarrow> error + number" where
  \<comment> \<open>\<open>Unit.prototype._from\<close>; with an inherited member \<open>amount * undefined\<close> is NaN\<close>
  "Unit_from amount code =
     (case UNITS code of
        Undefined \<Rightarrow> Inl (UnknownCode code)
      | Entry scale precision \<Rightarrow> Inr (parseInt (toFixed (js_mul amount (Finite scale)) 0))
      | Inherited \<Rightarrow> Inr (parseInt (toFixed NaN 0)))"

definition Unit_new :: "number \<Rightarrow> code_arg \<Rightarrow> error + unit_instance" where
  \<comment> \<open>the constructor \<open>Unit(amount, code)\<close>, called with or without \<open>new\<close>\<close>
  "Unit_new amount code =
     (case code of
        Rate rate \<Rightarrow>
          if js_le_zero rate then Inl (InvalidRate rate)
          else (case Unit_from (js_div amount rate) Unit_HC of
                  Inl e \<Rightarrow> Inl e
                | Inr v \<Rightarrow> Inr \<lparr>unit_value = v\<rparr>)
      | Code c \<Rightarrow>
          (case Unit_from amount c of
             Inl e \<Rightarrow> Inl e
           | Inr v \<Rightarrow> Inr \<lparr>unit_value = v\<rparr>))"

definition isObject :: "data \<Rightarrow> bool" where
  \<comment> \<open>lodash's \<open>_.isObject\<close>\<close>
  "isObject d = (case d of JObject _ _ \<Rightarrow> True | _ \<Rightarrow> False)"

definition checkArgument :: "bool \<Rightarrow> string \<Rightarrow> error + unit" where
  \<comment> \<open>Modelled from the spec: \<open>lib/util/preconditions.js\<close> is not among the sources; the
      spec describes it as a single \<open>checkArgument(condition, message)\<close> call that fails
      fast with an argument-precondition error.\<close>
  "checkArgument condition message =
     (if condition then Inr () else Inl (InvalidArgument message))"

definition Unit_fromObject :: "data \<Rightarrow> error + unit_instance" where
  \<comment> \<open>the last case is never reached: \<open>isObject\<close> holds of objects only\<close>
  "Unit_fromObject d =
     (case checkArgument (isObject d) ''Argument is expected to be an object'' of
        Inl e \<Rightarrow> Inl e
      | Inr _ \<Rightarrow>
          (case d of
             JObject a c \<Rightarrow> Unit_new a c
           | _ \<Rightarrow> Inl (InvalidArgument ''Argument is expected to be an object'')))"

definition Unit_fromHC :: "number \<Rightarrow> error + unit_instance" where
  "Unit_fromHC amount = Unit_new amount (Code Unit_HC)"

definition Unit_fromMillis :: "number \<Rightarrow> error + unit_instance" where
  "Unit_fromMillis amount = Unit_new amount (Code Unit_mHC)"

definition Unit_fromMilis :: "number \<Rightarrow> error + unit_instance" where
  "Unit_fromMilis = Unit_fromMillis"

definition Unit_fromMicros :: "number \<Rightarrow> error + unit_instance" where
  "Unit_fromMicros amount = Unit_new amount (Code Unit_dbits)"

definition Unit_fromDbits :: "number \<Rightarrow> error + unit_instance" where
  "Unit_fromDbits = Unit_fromMicros"

definition Unit_fromAtoms :: "number \<Rightarrow> error + unit_instance" where
  "Unit_fromAtoms amount = Unit_new amount (Code Unit_atoms)"


function Unit_to :: "unit_instance \<Rightarrow> code_arg \<Rightarrow> error + number" where
  \<comment> \<open>\<open>Unit.prototype.to\<close>; \<open>this.HC\<close> is the accessor, which calls \<open>to('HC')\<close>; with an
      inherited member the value is \<open>this._value / undefined\<close> and the digits \<open>undefined\<close>\<close>
  "Unit_to u (Rate rate) =
     (if js_le_zero rate then Inl (InvalidRate rate)
      else (case Unit_to u (Code Unit_HC) of
              Inl e \<Rightarrow> Inl e
            | Inr hc \<Rightarrow> Inr (parseFloat (toFixed (js_mul hc rate) 2))))"
| "Unit_to u (Code c) =
     (case UNITS c of
        Undefined \<Rightarrow> Inl (UnknownCode c)
      | Entry scale precision \<Rightarrow>
          Inr (parseFloat (toFixed (js_div (unit_value u) (Finite scale)) precision))
      | Inherited \<Rightarrow> Inr (parseFloat (toFixed NaN 0)))"
  by pat_completeness auto

termination
  by (relation "measure (\<lambda>(u, a). case a of Rate _ \<Rightarrow> 1 | Code _ \<Rightarrow> 0)") auto

definition accessor :: "unit_instance \<Rightarrow> string \<Rightarrow> (error + number) option" where
  \<comment> \<open>the getters that the constructor defines, one for each key of \<open>UNITS\<close>\<close>
  "accessor u key =
     (if key \<in> set Object_keys_UNITS then Some (Unit_to u (Code key)) else None)"

definition Unit_toHC :: "unit_instance \<Rightarrow> error + number" where
  "Unit_toHC u = Unit_to u (Code Unit_HC)"

definition Unit_toMillis :: "unit_instance \<Rightarrow> error + number" where
  "Unit_toMillis u = Unit_to u (Code Unit_mHC)"

definition Unit_toMilis :: "unit_instance \<Rightarrow> error + number" where
  "Unit_toMilis = Unit_toMillis"

definition Unit_toMicros :: "unit_instance \<Rightarrow> error + number" where
  "Unit_toMicros u = Unit_to u (Code Unit_dbits)"

definition Unit_toDbits :: "unit_instance \<Rightarrow> error + number" where
  "Unit_toDbits = Unit_toMicros"

definition Unit_toAtoms :: "unit_instance \<Rightarrow> error + number" where
  "Unit_toAtoms u = Unit_to u (Code Unit_atoms)"

definition Unit_atRate :: "unit_instance \<Rightarrow> number \<Rightarrow> error + number" where
  "Unit_atRate u rate = Unit_to u (Rate rate)"


definition Unit_toObject :: "unit_instance \<Rightarrow> error + unit_object" where
  "Unit_toObject u =
     (case Unit_to u (Code Unit_HC) of
        Inl e \<Rightarrow> Inl e
      | Inr v \<Rightarrow> Inr \<lparr>object_amount = v, object_code = Unit_HC\<rparr>)"

definition Unit_toJSON :: "unit_instance \<Rightarrow> error + unit_object" where
  "Unit_toJSON = Unit_toObject"


section \<open>Specification-side notions and the call model\<close>

text \<open>
  The specification's \<open>round_to_precision(x, p)\<close>: \<open>x\<close> rounded to \<open>p\<close> decimal digits, a
  tie going away from zero, the result being a Number again; Infinity and NaN are left as
  they are.
\<close>

fun round_to_precision :: "number \<Rightarrow> nat \<Rightarrow> number" where
  "round_to_precision (Finite x) p = fl (of_int (round_half_away (x * 10 ^ p)) / 10 ^ p)"
| "round_to_precision v p = v"

text \<open>What it is for a Number to be an integer.\<close>

fun is_integer :: "number \<Rightarrow> bool" where
  "is_integer (Finite x) = (of_int \<lfloor>x\<rfloor> = x)"
| "is_integer v = False"

text \<open>The stored value of a constructed Unit is NaN or an integer below \<open>10 ^ 21\<close>.\<close>

definition atomic :: "number \<Rightarrow> bool" where
  "atomic v = (v = NaN \<or> (\<exists>n. v = Finite (of_int n) \<and> \<bar>of_int n :: rat\<bar> < 10 ^ 21
                 \<and> fl (of_int n) = Finite (of_int n)))"






section \<open>Lemmas\<close>

declare decimal.simps [simp del]

declare toFixed.simps [simp del]

subsection \<open>Rounding to binary64\<close>

lemma ipow_powi: "ipow b e = b powi e"
  by (simp add: ipow_def power_int_def power_one_over inverse_eq_divide)

lemma ipow_pos: "0 < b \<Longrightarrow> 0 < ipow b e"
  by (simp add: ipow_powi zero_less_power_int)

lemma ipow_add: "b \<noteq> 0 \<Longrightarrow> ipow b (m + n) = ipow b m * ipow b n"
  by (simp add: ipow_powi power_int_add)

lemma ipow_nat: "ipow b (int n) = b ^ n"
  by (simp add: ipow_def)

lemma ipow_mono: "1 \<le> b \<Longrightarrow> m \<le> n \<Longrightarrow> ipow b m \<le> ipow b n"
  by (simp add: ipow_powi power_int_increasing)

lemma ipow_strict_mono: "1 < b \<Longrightarrow> m < n \<Longrightarrow> ipow b m < ipow b n"
  by (simp add: ipow_powi power_int_strict_increasing)

lemma ipow_less_cancel: "1 < b \<Longrightarrow> ipow b m < ipow b n \<Longrightarrow> m < n"
  using ipow_mono [of b n m] by (cases "m < n") auto

lemma ilog2_lower: assumes "0 < x" shows "ipow 2 (ilog2 x) \<le> x"
proof (cases "1 \<le> x")
  case True
  define m where "m = \<lfloor>x\<rfloor>"
  have m: "0 < m" using True by (simp add: m_def)
  have b: "1 \<le> bitlen m" using m bitlen_nonneg [of m] bitlen_eq_zero_iff [of m] by linarith
  have "(2::int) ^ nat (bitlen m - 1) \<le> m" using bitlen_bounds [OF m] by simp
  then have "of_int ((2::int) ^ nat (bitlen m - 1)) \<le> (of_int m :: rat)"
    by (simp only: of_int_le_iff)
  then have "(2::rat) ^ nat (bitlen m - 1) \<le> of_int m" by simp
  also have "\<dots> \<le> x" by (simp add: m_def)
  finally show ?thesis using True b by (simp add: ilog2_def ipow_def m_def)
next
  case False
  define m where "m = \<lceil>1 / x\<rceil> - 1"
  have x1: "1 < 1 / x" using False assms by simp
  have m: "0 < m" using x1 by (simp add: m_def less_ceiling_iff)
  have b: "1 \<le> bitlen m" using m bitlen_nonneg [of m] bitlen_eq_zero_iff [of m] by linarith
  have "m < (2::int) ^ nat (bitlen m)" using bitlen_bounds [OF m] by simp
  then have "m + 1 \<le> (2::int) ^ nat (bitlen m)" by simp
  then have "of_int (m + 1) \<le> (of_int ((2::int) ^ nat (bitlen m)) :: rat)"
    by (simp only: of_int_le_iff)
  then have "of_int (m + 1) \<le> (2::rat) ^ nat (bitlen m)" by simp
  moreover have "1 / x \<le> of_int (m + 1)" by (simp add: m_def)
  ultimately have "1 / x \<le> (2::rat) ^ nat (bitlen m)" by linarith
  then have "1 / (2::rat) ^ nat (bitlen m) \<le> x"
    using assms by (simp add: field_simps)
  then show ?thesis using False b by (simp add: ilog2_def ipow_def m_def)
qed

lemma ilog2_upper: assumes "0 < x" shows "x < ipow 2 (ilog2 x + 1)"
proof (cases "1 \<le> x")
  case True
  define m where "m = \<lfloor>x\<rfloor>"
  have m: "0 < m" using True by (simp add: m_def)
  have b: "1 \<le> bitlen m" using m bitlen_nonneg [of m] bitlen_eq_zero_iff [of m] by linarith
  have "m < (2::int) ^ nat (bitlen m)" using bitlen_bounds [OF m] by simp
  then have "m + 1 \<le> (2::int) ^ nat (bitlen m)" by simp
  then have "of_int (m + 1) \<le> (of_int ((2::int) ^ nat (bitlen m)) :: rat)"
    by (simp only: of_int_le_iff)
  then have "of_int m + 1 \<le> (2::rat) ^ nat (bitlen m)" by simp
  moreover have "x < of_int m + 1" using floor_correct [of x] by (simp add: m_def)
  ultimately have "x < (2::rat) ^ nat (bitlen m)" by linarith
  then show ?thesis using True b by (simp add: ilog2_def ipow_def m_def)
next
  case False
  define m where "m = \<lceil>1 / x\<rceil> - 1"
  have x1: "1 < 1 / x" using False assms by simp
  have m: "0 < m" using x1 by (simp add: m_def less_ceiling_iff)
  have b: "1 \<le> bitlen m" using m bitlen_nonneg [of m] bitlen_eq_zero_iff [of m] by linarith
  have "(2::int) ^ nat (bitlen m - 1) \<le> m" using bitlen_bounds [OF m] by simp
  then have "of_int ((2::int) ^ nat (bitlen m - 1)) \<le> (of_int m :: rat)"
    by (simp only: of_int_le_iff)
  then have "(2::rat) ^ nat (bitlen m - 1) \<le> of_int m" by simp
  moreover have "of_int m < 1 / x" using ceiling_correct [of "1 / x"] by (simp add: m_def)
  ultimately have "(2::rat) ^ nat (bitlen m - 1) < 1 / x" by linarith
  then have lt: "x < 1 / (2::rat) ^ nat (bitlen m - 1)"
    using assms by (simp add: field_simps)
  show ?thesis
  proof (cases "bitlen m = 1")
    case True
    then show ?thesis using lt False by (simp add: ilog2_def ipow_def m_def)
  next
    case ne: False
    then have "nat (bitlen m - 1) = nat (- (1 - bitlen m))" by simp
    then show ?thesis using lt False b ne by (simp add: ilog2_def ipow_def m_def)
  qed
qed

lemma round_half_even_of_int: "round_half_even (of_int m) = m"
  by (simp add: round_half_even_def)

lemma round_half_even_error: "\<bar>of_int (round_half_even y) - y\<bar> \<le> 1 / 2"
  using floor_correct [of y] by (auto simp add: round_half_even_def Let_def)

lemma fl_finite_eq:
  assumes "fl x = Finite y" and "x \<noteq> 0"
  shows "y = of_int (round_half_even (x / quantum x)) * quantum x"
  using assms by (simp add: fl_def Let_def split: if_splits)

lemma fl_zero: "fl 0 = Finite 0"
  by (simp add: fl_def)

lemma quantum_pos: "0 < quantum x"
  by (simp add: quantum_def ipow_pos)

lemma quantum_minus: "quantum (- x) = quantum x"
  by (simp add: quantum_def)

lemma round_half_even_minus: "round_half_even (- y) = - round_half_even y"
proof (cases "y \<in> \<int>")
  case True
  then obtain k where "y = of_int k" by (auto elim: Ints_cases)
  then show ?thesis
    using round_half_even_of_int [of k] round_half_even_of_int [of "- k"] by simp
next
  case False
  then have "y \<noteq> of_int \<lfloor>y\<rfloor>" by (metis Ints_of_int)
  then have "\<lfloor>- y\<rfloor> = - \<lfloor>y\<rfloor> - 1"
    by (simp add: floor_minus ceiling_altdef)
  then show ?thesis
    by (auto simp add: round_half_even_def Let_def)
qed

lemma fl_minus:
  "fl (- x) = (case fl x of Finite y \<Rightarrow> Finite (- y) | PosInfinity \<Rightarrow> NegInfinity
               | NegInfinity \<Rightarrow> PosInfinity | NaN \<Rightarrow> NaN)"
  by (auto simp add: fl_def Let_def quantum_minus round_half_even_minus)

text \<open>Every \<open>m * 2 ^ e\<close> with at most 53 significant bits and \<open>e \<ge> -1074\<close> is a binary64 value.\<close>

lemma representable_strict:
  assumes m: "\<bar>m\<bar> < 2 ^ 53" and e: "- 1074 \<le> e"
    and b: "\<bar>of_int m * ipow 2 e\<bar> < 2 ^ 1024"
  shows "fl (of_int m * ipow 2 e) = Finite (of_int m * ipow 2 e)"
proof (cases "m = 0")
  case True
  then show ?thesis by (simp add: fl_def)
next
  case False
  define y where "y = of_int m * ipow 2 e"
  have p2: "0 < ipow 2 e" by (simp add: ipow_pos)
  have y0: "y \<noteq> 0" using False p2 by (simp add: y_def)
  have ay: "\<bar>y\<bar> = of_int \<bar>m\<bar> * ipow 2 e" using p2 by (simp add: y_def abs_mult)
  have "(of_int \<bar>m\<bar> :: rat) < of_int (2 ^ 53)" using m by (simp only: of_int_less_iff)
  then have "\<bar>y\<bar> < 2 ^ 53 * ipow 2 e" using p2 by (simp add: ay)
  also have "\<dots> = ipow 2 (53 + e)" by (simp add: ipow_add) (simp add: ipow_def)
  finally have up: "\<bar>y\<bar> < ipow 2 (53 + e)" .
  have "ipow 2 (ilog2 \<bar>y\<bar>) \<le> \<bar>y\<bar>" using ilog2_lower [of "\<bar>y\<bar>"] y0 by simp
  then have "ipow 2 (ilog2 \<bar>y\<bar>) < ipow 2 (53 + e)" using up by linarith
  then have E: "ilog2 \<bar>y\<bar> < 53 + e"
    using ipow_less_cancel [of 2 "ilog2 \<bar>y\<bar>" "53 + e"] by simp
  define qe where "qe = max (ilog2 \<bar>y\<bar> - 52) (- 1074)"
  have qe: "qe \<le> e" using E e by (simp add: qe_def)
  have q: "quantum y = ipow 2 qe" by (simp add: quantum_def qe_def)
  have qpos: "0 < ipow 2 qe" by (simp add: ipow_pos)
  have "ipow 2 e = ipow 2 (e - qe) * ipow 2 qe" using ipow_add [of 2 "e - qe" qe] by simp
  moreover have "ipow 2 (e - qe) = 2 ^ nat (e - qe)" using qe by (simp add: ipow_def)
  ultimately have "y / ipow 2 qe = of_int (m * 2 ^ nat (e - qe))"
    using qpos by (simp add: y_def)
  then have "round_half_even (y / quantum y) = m * 2 ^ nat (e - qe)"
    by (simp only: q round_half_even_of_int)
  then have "of_int (round_half_even (y / quantum y)) * quantum y = y / ipow 2 qe * ipow 2 qe"
    using \<open>y / ipow 2 qe = of_int (m * 2 ^ nat (e - qe))\<close> by (simp only: q)
  then have r: "of_int (round_half_even (y / quantum y)) * quantum y = y"
    using qpos by simp
  have "\<not> 2 ^ 1024 \<le> y" "\<not> y \<le> - (2 ^ 1024)" using b by (auto simp add: y_def)
  then have "fl y = Finite y" using y0 r by (simp add: fl_def Let_def)
  then show ?thesis by (simp add: y_def)
qed

lemma representable:
  assumes m: "\<bar>m\<bar> \<le> 2 ^ 53" and e: "- 1074 \<le> e"
    and b: "\<bar>of_int m * ipow 2 e\<bar> < 2 ^ 1024"
  shows "fl (of_int m * ipow 2 e) = Finite (of_int m * ipow 2 e)"
proof (cases "\<bar>m\<bar> < 2 ^ 53")
  case True
  then show ?thesis using e b by (rule representable_strict)
next
  case False
  then have "m = 2 ^ 53 \<or> m = - (2 ^ 53)" using m by linarith
  then obtain m' where m': "m = 2 * m'" "\<bar>m'\<bar> < 2 ^ 53" by auto
  have eq: "of_int m * ipow 2 e = of_int m' * ipow 2 (e + 1)"
    using ipow_add [of 2 e 1] by (simp add: m' ipow_def [of 2 1])
  have "fl (of_int m' * ipow 2 (e + 1)) = Finite (of_int m' * ipow 2 (e + 1))"
    using m'(2) e b by (intro representable_strict) (simp_all add: eq)
  then show ?thesis by (simp add: eq)
qed

lemma fl_of_int:
  assumes "\<bar>m\<bar> \<le> 2 ^ 53"
  shows "fl (of_int m) = Finite (of_int m)"
proof -
  have "(of_int \<bar>m\<bar> :: rat) \<le> of_int (2 ^ 53)" using assms by (simp only: of_int_le_iff)
  then have "\<bar>of_int m :: rat\<bar> < 2 ^ 1024" by simp
  then show ?thesis using representable [of m 0] assms by (simp add: ipow_def)
qed

lemma round_half_even_between:
  "\<lfloor>z\<rfloor> \<le> round_half_even z" "round_half_even z \<le> \<lceil>z\<rceil>"
  by (auto simp add: round_half_even_def Let_def ceiling_altdef)

lemma abs_round_half_even_le:
  assumes "\<bar>z\<bar> \<le> of_int k"
  shows "\<bar>round_half_even z\<bar> \<le> k"
proof -
  have "\<lceil>z\<rceil> \<le> k" using assms by (simp add: ceiling_le_iff)
  moreover have "- k \<le> \<lfloor>z\<rfloor>" using assms by (simp add: le_floor_iff)
  ultimately show ?thesis using round_half_even_between [of z] by linarith
qed

lemma ipow_2_numeral: "ipow 2 53 = 2 ^ 53" "ipow 2 52 = 2 ^ 52"
  by (simp_all add: ipow_def)

lemma significand_bound:
  assumes "x \<noteq> 0"
  shows "\<bar>round_half_even (x / quantum x)\<bar> \<le> 2 ^ 53"
proof -
  define E where "E = ilog2 \<bar>x\<bar>"
  define qe where "qe = max (E - 52) (- 1074)"
  have q: "quantum x = ipow 2 qe" by (simp add: quantum_def qe_def E_def)
  have qpos: "0 < ipow 2 qe" by (simp add: ipow_pos)
  have "\<bar>x\<bar> < ipow 2 (E + 1)" using ilog2_upper [of "\<bar>x\<bar>"] assms by (simp add: E_def)
  also have "ipow 2 (E + 1) \<le> ipow 2 (53 + qe)" by (rule ipow_mono) (simp_all add: qe_def)
  also have "ipow 2 (53 + qe) = 2 ^ 53 * ipow 2 qe" by (simp add: ipow_add ipow_2_numeral)
  finally have "\<bar>x\<bar> / ipow 2 qe < 2 ^ 53" using qpos by (simp add: field_simps)
  then have "\<bar>x / quantum x\<bar> \<le> of_int (2 ^ 53)" using qpos by (simp add: q)
  then show ?thesis by (rule abs_round_half_even_le)
qed

lemma fl_idem:
  assumes "fl x = Finite y"
  shows "fl y = Finite y"
proof (cases "x = 0")
  case True
  then show ?thesis using assms by (simp add: fl_def)
next
  case False
  define m where "m = round_half_even (x / quantum x)"
  define qe where "qe = max (ilog2 \<bar>x\<bar> - 52) (- 1074)"
  have y: "y = of_int m * ipow 2 qe"
    using fl_finite_eq [OF assms False] by (simp add: m_def qe_def quantum_def)
  have "\<not> 2 ^ 1024 \<le> y" "\<not> y \<le> - (2 ^ 1024)"
    using assms False by (auto simp add: fl_def Let_def split: if_splits)
  then have "\<bar>y\<bar> < 2 ^ 1024" by linarith
  moreover have "\<bar>m\<bar> \<le> 2 ^ 53" using significand_bound [OF False] by (simp add: m_def)
  moreover have "- 1074 \<le> qe" by (simp add: qe_def)
  ultimately show ?thesis using representable [of m qe] by (simp add: y)
qed

lemma is_double_integer:
  assumes "is_double y" and "2 ^ 52 \<le> \<bar>y\<bar>"
  shows "y \<in> \<int>"
proof -
  have fy: "fl y = Finite y" using assms(1) by (simp add: is_double_def)
  have y0: "y \<noteq> 0" using assms(2) by auto
  define E where "E = ilog2 \<bar>y\<bar>"
  have "ipow 2 52 \<le> \<bar>y\<bar>" using assms(2) by (simp add: ipow_2_numeral)
  also have "\<bar>y\<bar> < ipow 2 (E + 1)" using ilog2_upper [of "\<bar>y\<bar>"] y0 by (simp add: E_def)
  finally have "52 < E + 1" using ipow_less_cancel [of 2 52 "E + 1"] by simp
  then have "quantum y = 2 ^ nat (E - 52)" by (simp add: quantum_def E_def ipow_def)
  then have "y = of_int (round_half_even (y / quantum y) * 2 ^ nat (E - 52))"
    using fl_finite_eq [OF fy y0] by simp
  then show ?thesis by (metis Ints_of_int)
qed

lemma fl_error:
  assumes "fl x = Finite y"
  shows "\<bar>y - x\<bar> \<le> quantum x / 2"
proof (cases "x = 0")
  case True
  then show ?thesis using assms quantum_pos [of 0] by (simp add: fl_def)
next
  case False
  define q where "q = quantum x"
  have qpos: "0 < q" by (simp add: q_def quantum_pos)
  have y: "y = of_int (round_half_even (x / q)) * q"
    using fl_finite_eq [OF assms False] by (simp add: q_def)
  have "y - x = (of_int (round_half_even (x / q)) - x / q) * q"
    using qpos by (simp add: y field_simps)
  then have "\<bar>y - x\<bar> = \<bar>of_int (round_half_even (x / q)) - x / q\<bar> * q"
    using qpos by (simp add: abs_mult)
  also have "\<dots> \<le> 1 / 2 * q"
    using round_half_even_error [of "x / q"] qpos by (intro mult_right_mono) simp_all
  finally show ?thesis by (simp add: q_def)
qed

subsection \<open>Digit strings\<close>

lemma is_digit_digit_char: "d < 10 \<Longrightarrow> is_digit (digit_char d)"
  by (simp add: is_digit_def digit_char_def)

lemma digit_val_digit_char: "d < 10 \<Longrightarrow> digit_val (digit_char d) = d"
  by (simp add: digit_val_def digit_char_def)

lemma decimal_digits: "c \<in> set (decimal n) \<Longrightarrow> is_digit c"
proof (induction n arbitrary: c rule: decimal.induct)
  case (1 n)
  show ?case
  proof (cases "n < 10")
    case True
    then show ?thesis using "1.prems" by (simp add: decimal.simps [of n] is_digit_digit_char)
  next
    case False
    then show ?thesis
      using "1.prems" "1.IH" by (auto simp add: decimal.simps [of n] is_digit_digit_char)
  qed
qed

lemma decimal_not_Nil: "decimal n \<noteq> []"
  by (subst decimal.simps) simp

lemma digits_val_Nil: "digits_val [] = 0"
  by (simp add: digits_val_def)

lemma digits_val_snoc: "digits_val (ds @ [c]) = 10 * digits_val ds + digit_val c"
  by (simp add: digits_val_def)

lemma digits_val_append:
  "digits_val (xs @ ys) = digits_val xs * 10 ^ length ys + digits_val ys"
proof (induction ys rule: rev_induct)
  case Nil
  then show ?case by (simp add: digits_val_Nil)
next
  case (snoc y ys)
  have "digits_val (xs @ ys @ [y]) = 10 * digits_val (xs @ ys) + digit_val y"
    using digits_val_snoc [of "xs @ ys" y] by simp
  then show ?case using snoc by (simp add: digits_val_snoc algebra_simps)
qed

lemma digits_val_single: "digits_val [c] = digit_val c"
  by (simp add: digits_val_def)

lemma digits_val_decimal: "digits_val (decimal n) = n"
proof (induction n rule: decimal.induct)
  case (1 n)
  show ?case
  proof (cases "n < 10")
    case True
    then show ?thesis by (simp add: decimal.simps [of n] digits_val_single digit_val_digit_char)
  next
    case False
    then show ?thesis
      using "1.IH" by (simp add: decimal.simps [of n] digits_val_snoc digit_val_digit_char)
  qed
qed

lemma digits_val_zeros: "digits_val (replicate j CHR ''0'' @ ds) = digits_val ds"
proof (induction j)
  case 0
  then show ?case by simp
next
  case (Suc j)
  have "digits_val (CHR ''0'' # replicate j CHR ''0'' @ ds) = digits_val (replicate j CHR ''0'' @ ds)"
    using digits_val_append [of "[CHR ''0'']" "replicate j CHR ''0'' @ ds"]
    by (simp add: digits_val_single digit_val_def)
  then show ?case using Suc by simp
qed

lemma hd_decimal:
  "0 < n \<Longrightarrow> \<exists>d. 1 \<le> d \<and> d \<le> 9 \<and> hd (decimal n) = digit_char d"
proof (induction n rule: decimal.induct)
  case (1 n)
  show ?case
  proof (cases "n < 10")
    case True
    then show ?thesis using "1.prems"
      by (subst decimal.simps) (auto intro: exI [of _ n])
  next
    case False
    then have "0 < n div 10" by simp
    then show ?thesis using "1.IH" False decimal_not_Nil [of "n div 10"]
      by (subst decimal.simps) simp
  qed
qed

lemma length_decimal:
  "0 < n \<Longrightarrow> length (decimal n) = floorlog 10 n"
proof (induction n rule: decimal.induct)
  case (1 n)
  show ?case
  proof (cases "n < 10")
    case True
    then show ?thesis using "1.prems"
      by (subst decimal.simps, subst compute_floorlog) (simp add: compute_floorlog)
  next
    case False
    then have "0 < n div 10" by simp
    then show ?thesis using "1.IH" False
      by (subst decimal.simps, subst compute_floorlog) simp
  qed
qed

lemma takeWhile_digits:
  assumes "\<And>c. c \<in> set ds \<Longrightarrow> is_digit c" and "rest = [] \<or> \<not> is_digit (hd rest)"
  shows "takeWhile is_digit (ds @ rest) = ds" and "dropWhile is_digit (ds @ rest) = rest"
  using assms by (cases rest; simp add: takeWhile_append2 dropWhile_append2)+

lemma digit_facts:
  assumes "is_digit c"
  shows "\<not> is_space c" "c \<noteq> CHR ''-''" "c \<noteq> CHR ''+''" "c \<noteq> CHR ''I''"
    "c \<noteq> CHR ''.''" "c \<noteq> CHR ''e''" "c \<noteq> CHR ''E''" "c \<noteq> CHR ''x''" "c \<noteq> CHR ''X''"
  using assms by (auto simp add: is_digit_def is_space_def)

lemma not_digit: "\<not> is_digit CHR ''.''" "\<not> is_digit CHR ''e''" "\<not> is_digit CHR ''-''"
  "\<not> is_digit CHR ''+''"
  by (simp_all add: is_digit_def)

lemma split_sign_digit:
  assumes "is_digit c"
  shows "split_sign (dropWhile is_space ((if neg then ''-'' else []) @ c # cs)) = (neg, c # cs)"
  using digit_facts [OF assms]
  by (simp add: split_sign_def is_space_def)

lemma parse_exponent_Nil: "parse_exponent [] = 0"
  by (simp add: parse_exponent_def)

lemma parse_exponent_part: "parse_exponent (exponent_part n) = n - 1"
proof -
  have t: "takeWhile is_digit (decimal m) = decimal m" for m
    using takeWhile_digits(1) [of "decimal m" "[]"] decimal_digits by simp
  show ?thesis
    by (simp add: parse_exponent_def exponent_part_def split_sign_def t decimal_not_Nil
        digits_val_decimal)
qed

lemma parseFloat_int_form:
  assumes c: "is_digit c" and cs: "\<And>x. x \<in> set cs \<Longrightarrow> is_digit x"
    and ex: "ex = [] \<or> hd ex = CHR ''e''"
  shows "parseFloat ((if neg then ''-'' else []) @ c # cs @ ex)
         = signed neg (of_nat (digits_val (c # cs)) * ipow 10 (parse_exponent ex))"
proof -
  have d: "\<And>x. x \<in> set (c # cs) \<Longrightarrow> is_digit x" using c cs by auto
  have e: "ex = [] \<or> \<not> is_digit (hd ex)" using ex not_digit by auto
  have t: "takeWhile is_digit (c # cs @ ex) = c # cs" "dropWhile is_digit (c # cs @ ex) = ex"
    using takeWhile_digits [of "c # cs" ex, OF d e] by simp_all
  have i: "take 8 (c # cs @ ex) \<noteq> ''Infinity''" using digit_facts [OF c] by simp
  have r: "(case ex of [] \<Rightarrow> ([], ex)
            | a # t \<Rightarrow> if a = CHR ''.'' then (takeWhile is_digit t, dropWhile is_digit t) else ([], ex))
           = ([], ex)"
    using ex by (cases ex) auto
  show ?thesis
    unfolding parseFloat_def split_sign_digit [OF c] 
    by (simp only: prod.case Let_def t i r if_False) simp
qed

lemma parseFloat_frac_form:
  assumes c: "is_digit c" and cs: "\<And>x. x \<in> set cs \<Longrightarrow> is_digit x"
    and fp: "\<And>x. x \<in> set fp \<Longrightarrow> is_digit x"
    and ex: "ex = [] \<or> hd ex = CHR ''e''"
  shows "parseFloat ((if neg then ''-'' else []) @ c # cs @ CHR ''.'' # fp @ ex)
         = signed neg (of_nat (digits_val (c # cs @ fp)) / 10 ^ length fp
                        * ipow 10 (parse_exponent ex))"
proof -
  have d: "\<And>x. x \<in> set (c # cs) \<Longrightarrow> is_digit x" using c cs by auto
  have e: "ex = [] \<or> \<not> is_digit (hd ex)" using ex not_digit by auto
  have t: "takeWhile is_digit (c # cs @ CHR ''.'' # fp @ ex) = c # cs"
    "dropWhile is_digit (c # cs @ CHR ''.'' # fp @ ex) = CHR ''.'' # fp @ ex"
    using takeWhile_digits [of "c # cs" "CHR ''.'' # fp @ ex", OF d] not_digit by simp_all
  have u: "takeWhile is_digit (fp @ ex) = fp" "dropWhile is_digit (fp @ ex) = ex"
    using takeWhile_digits [of fp ex, OF fp e] by simp_all
  have i: "take 8 (c # cs @ CHR ''.'' # fp @ ex) \<noteq> ''Infinity''"
    using digit_facts [OF c] by simp
  show ?thesis
    unfolding parseFloat_def split_sign_digit [OF c]
    by (simp only: prod.case Let_def t i list.case if_True u if_False) simp
qed

lemma parseInt_form:
  assumes c: "is_digit c" and cs: "\<And>x. x \<in> set cs \<Longrightarrow> is_digit x"
    and r: "r = [] \<or> hd r = CHR ''.'' \<or> hd r = CHR ''e''"
  shows "parseInt ((if neg then ''-'' else []) @ c # cs @ r)
         = signed neg (of_nat (digits_val (c # cs)))"
proof -
  have d: "\<And>x. x \<in> set (c # cs) \<Longrightarrow> is_digit x" using c cs by auto
  have e: "r = [] \<or> \<not> is_digit (hd r)" using r not_digit by auto
  have t: "takeWhile is_digit (c # cs @ r) = c # cs"
    using takeWhile_digits [of "c # cs" r, OF d e] by simp
  have h: "take 2 (c # cs @ r) \<noteq> ''0x''" "take 2 (c # cs @ r) \<noteq> ''0X''"
  proof -
    have "hd (cs @ r) \<noteq> CHR ''x'' \<and> hd (cs @ r) \<noteq> CHR ''X'' \<or> cs @ r = []"
    proof (cases cs)
      case Nil
      then show ?thesis using r by (cases r) auto
    next
      case (Cons a as)
      then show ?thesis using digit_facts [of a] cs by simp
    qed
    then show "take 2 (c # cs @ r) \<noteq> ''0x''" "take 2 (c # cs @ r) \<noteq> ''0X''"
      by (cases "cs @ r"; auto)+
  qed
  show ?thesis
    unfolding parseInt_def split_sign_digit [OF c]
    by (simp only: prod.case Let_def t h if_False) simp
qed

subsection \<open>The digit string of toFixed, read back\<close>

lemma toFixed_small:
  assumes "\<bar>x\<bar> < 10 ^ 21"
  shows "\<exists>c cs fp. toFixed (Finite x) f
           = (if x < 0 then ''-'' else []) @ c # cs @ (if f = 0 then [] else CHR ''.'' # fp)
         \<and> is_digit c \<and> (\<forall>d \<in> set cs. is_digit d) \<and> (\<forall>d \<in> set fp. is_digit d)
         \<and> length fp = f
         \<and> digits_val (c # cs @ fp) = nat \<lfloor>\<bar>x\<bar> * 10 ^ f + 1 / 2\<rfloor>"
proof -
  define n where "n = nat \<lfloor>\<bar>x\<bar> * 10 ^ f + 1 / 2\<rfloor>"
  define m where "m = (if length (decimal n) \<le> f
                       then replicate (f + 1 - length (decimal n)) CHR ''0'' @ decimal n
                       else decimal n)"
  have ax: "(if x < 0 then - x else x) = \<bar>x\<bar>" by simp
  have small: "\<not> 10 ^ 21 \<le> \<bar>x\<bar>" using assms by simp
  have dig: "\<forall>d \<in> set m. is_digit d"
    using decimal_digits [of _ n] by (auto simp add: m_def is_digit_def)
  have val: "digits_val m = n"
    by (simp add: m_def digits_val_zeros digits_val_decimal)
  have len: "f < length m"
    using decimal_not_Nil [of n] by (auto simp add: m_def)
  show ?thesis
  proof (cases "f = 0")
    case True
    obtain c cs where ccs: "decimal n = c # cs"
      using decimal_not_Nil [of n] by (cases "decimal n") auto
    have "toFixed (Finite x) f = (if x < 0 then ''-'' else []) @ c # cs"
      using small True ccs by (simp add: toFixed.simps Let_def ax n_def del: abs_if)
    moreover have "is_digit c" "\<forall>d \<in> set cs. is_digit d"
      using decimal_digits [of _ n] ccs by auto
    moreover have "digits_val (c # cs) = n" using digits_val_decimal [of n] ccs by simp
    ultimately show ?thesis using True by (auto simp add: n_def)
  next
    case False
    define a where "a = take (length m - f) m"
    define b where "b = drop (length m - f) m"
    have ab: "a @ b = m" by (simp add: a_def b_def)
    have "a \<noteq> []" using len by (auto simp add: a_def)
    then obtain c cs where ccs: "a = c # cs" by (cases a) auto
    have tf: "toFixed (Finite x) f = (if x < 0 then ''-'' else []) @ a @ CHR ''.'' # b"
      using small False
      by (simp add: toFixed.simps Let_def ax n_def [symmetric] m_def [symmetric] a_def b_def
          del: abs_if)
    have "set a \<subseteq> set m" "set b \<subseteq> set m" by (auto simp add: a_def b_def dest: in_set_takeD in_set_dropD)
    then have "is_digit c" "\<forall>d \<in> set cs. is_digit d" "\<forall>d \<in> set b. is_digit d"
      using dig ccs by auto
    moreover have "length b = f" using len by (simp add: b_def)
    moreover have "digits_val (c # cs @ b) = n" using ab val ccs by simp
    ultimately show ?thesis using tf False ccs by (auto simp add: n_def)
  qed
qed

lemma parseFloat_toFixed_small:
  assumes "\<bar>x\<bar> < 10 ^ 21"
  shows "parseFloat (toFixed (Finite x) f)
         = signed (x < 0) (of_nat (nat \<lfloor>\<bar>x\<bar> * 10 ^ f + 1 / 2\<rfloor>) / 10 ^ f)"
proof -
  obtain c cs fp where t: "toFixed (Finite x) f
           = (if x < 0 then ''-'' else []) @ c # cs @ (if f = 0 then [] else CHR ''.'' # fp)"
    and c: "is_digit c" and cs: "\<And>d. d \<in> set cs \<Longrightarrow> is_digit d"
    and fp: "\<And>d. d \<in> set fp \<Longrightarrow> is_digit d" and l: "length fp = f"
    and v: "digits_val (c # cs @ fp) = nat \<lfloor>\<bar>x\<bar> * 10 ^ f + 1 / 2\<rfloor>"
    using toFixed_small [OF assms, of f] by blast
  show ?thesis
  proof (cases "f = 0")
    case True
    then have "fp = []" using l by simp
    then show ?thesis
      using parseFloat_int_form [of c cs "[]" "x < 0", OF c cs] t v True
      by (simp add: parse_exponent_Nil ipow_def)
  next
    case False
    then show ?thesis
      using parseFloat_frac_form [of c cs fp "[]" "x < 0", OF c cs fp] t v l
      by (simp add: parse_exponent_Nil ipow_def)
  qed
qed

lemma parseInt_toFixed_small:
  assumes "\<bar>x\<bar> < 10 ^ 21"
  shows "parseInt (toFixed (Finite x) 0) = signed (x < 0) (of_nat (nat \<lfloor>\<bar>x\<bar> + 1 / 2\<rfloor>))"
proof -
  obtain c cs fp where t: "toFixed (Finite x) 0 = (if x < 0 then ''-'' else []) @ c # cs"
    and c: "is_digit c" and cs: "\<And>d. d \<in> set cs \<Longrightarrow> is_digit d"
    and l: "length fp = 0"
    and v: "digits_val (c # cs @ fp) = nat \<lfloor>\<bar>x\<bar> * 10 ^ 0 + 1 / 2\<rfloor>"
    using toFixed_small [OF assms, of 0] by auto
  show ?thesis
    using parseInt_form [of c cs "[]" "x < 0", OF c cs] t v l by simp
qed

lemma signed_round_half_away:
  "signed (x < 0) (of_nat (nat \<lfloor>\<bar>x\<bar> * 10 ^ f + 1 / 2\<rfloor>) / 10 ^ f)
   = fl (of_int (round_half_away (x * 10 ^ f)) / 10 ^ f)"
proof (cases "x < 0")
  case True
  then have "x * 10 ^ f < 0" by (simp add: mult_less_0_iff)
  moreover have "0 \<le> \<lfloor>- (x * 10 ^ f) + 1 / 2\<rfloor>" using calculation by simp
  ultimately show ?thesis using True
    by (simp add: signed_def round_half_away_def)
next
  case False
  then have "0 \<le> x * 10 ^ f" by simp
  moreover have "0 \<le> \<lfloor>x * 10 ^ f + 1 / 2\<rfloor>" using calculation by simp
  ultimately show ?thesis using False
    by (simp add: signed_def round_half_away_def)
qed

lemma parseFloat_toFixed_round:
  assumes "\<bar>x\<bar> < 10 ^ 21"
  shows "parseFloat (toFixed (Finite x) f) = round_to_precision (Finite x) f"
  using parseFloat_toFixed_small [OF assms, of f] signed_round_half_away [of x f] by simp

lemma parseInt_toFixed_round:
  assumes "\<bar>x\<bar> < 10 ^ 21"
  shows "parseInt (toFixed (Finite x) 0) = fl (of_int (round_half_away x))"
  using parseInt_toFixed_small [OF assms] signed_round_half_away [of x 0] by simp

subsection \<open>The shortest digits of a large Number\<close>

lemma decimal_exponent_bounds:
  assumes "1 \<le> x"
  shows "ipow 10 (decimal_exponent x - 1) \<le> x" and "x < ipow 10 (decimal_exponent x)"
    and "1 \<le> decimal_exponent x"
proof -
  define m where "m = nat \<lfloor>x\<rfloor>"
  have m: "0 < m" using assms by (simp add: m_def)
  have de: "decimal_exponent x = int (floorlog 10 m)"
    using assms by (simp add: decimal_exponent_def m_def)
  have f1: "1 \<le> floorlog 10 m" using m floorlog_eq_zero_iff [of 10 m] by (cases "floorlog 10 m") auto
  have b: "10 ^ (floorlog 10 m - 1) \<le> m" "m < 10 ^ floorlog 10 m"
    using floorlog_bounds [of m 10] m by auto
  have mx: "of_nat m \<le> x" "x < of_nat m + 1"
    using assms floor_correct [of x] by (simp_all add: m_def)
  have "(10::rat) ^ (floorlog 10 m - 1) = of_nat (10 ^ (floorlog 10 m - 1))" by simp
  also have "\<dots> \<le> of_nat m" using b(1) by (simp only: of_nat_le_iff)
  also have "\<dots> \<le> x" by (rule mx(1))
  finally have "(10::rat) ^ (floorlog 10 m - 1) \<le> x" .
  moreover have "decimal_exponent x - 1 = int (floorlog 10 m - 1)" using f1 de by simp
  ultimately show "ipow 10 (decimal_exponent x - 1) \<le> x" by (simp add: ipow_nat)
  have "m + 1 \<le> 10 ^ floorlog 10 m" using b(2) by simp
  then have "(of_nat (m + 1) :: rat) \<le> of_nat (10 ^ floorlog 10 m)"
    by (simp only: of_nat_le_iff)
  also have "\<dots> = (10::rat) ^ floorlog 10 m" by simp
  finally have "of_nat m + 1 \<le> (10::rat) ^ floorlog 10 m" by simp
  then have "x < (10::rat) ^ floorlog 10 m" using mx(2) by (rule less_le_trans [rotated])
  then show "x < ipow 10 (decimal_exponent x)" by (simp add: de ipow_nat)
  show "1 \<le> decimal_exponent x" using f1 de by simp
qed

lemma decimal_exponent_large:
  assumes "10 ^ 21 \<le> x"
  shows "21 < decimal_exponent x"
proof -
  have "(1::rat) \<le> 10 ^ 21" by simp
  then have x1: "1 \<le> x" using assms by (rule order_trans)
  have "ipow 10 21 \<le> x" using assms by (simp add: ipow_def)
  also have "x < ipow 10 (decimal_exponent x)" using decimal_exponent_bounds(2) [OF x1] .
  finally show ?thesis using ipow_less_cancel [of 10 21 "decimal_exponent x"] by simp
qed

lemma floor_scaled_bounds:
  assumes x1: "1 \<le> x" and k: "1 \<le> k"
  shows "10 ^ (k - 1) \<le> \<lfloor>x / ipow 10 (decimal_exponent x - int k)\<rfloor>"
    and "\<lfloor>x / ipow 10 (decimal_exponent x - int k)\<rfloor> < 10 ^ k"
proof -
  define n where "n = decimal_exponent x"
  define sc where "sc = ipow 10 (n - int k)"
  have sc: "0 < sc" by (simp add: sc_def ipow_pos)
  have "ipow 10 (n - 1) = ipow 10 (int (k - 1)) * sc"
    using ipow_add [of 10 "int (k - 1)" "n - int k"] k by (simp add: sc_def)
  then have "10 ^ (k - 1) * sc \<le> x"
    using decimal_exponent_bounds(1) [OF x1] by (simp add: n_def ipow_nat)
  then have "of_int (10 ^ (k - 1)) \<le> x / sc" using sc by (simp add: field_simps)
  then show "10 ^ (k - 1) \<le> \<lfloor>x / ipow 10 (decimal_exponent x - int k)\<rfloor>"
    by (simp only: le_floor_iff sc_def n_def)
  have "ipow 10 n = ipow 10 (int k) * sc"
    using ipow_add [of 10 "int k" "n - int k"] by (simp add: sc_def)
  then have "x < 10 ^ k * sc"
    using decimal_exponent_bounds(2) [OF x1] by (simp add: n_def ipow_nat)
  then have "x / sc < of_int (10 ^ k)" using sc by (simp add: field_simps)
  then show "\<lfloor>x / ipow 10 (decimal_exponent x - int k)\<rfloor> < 10 ^ k"
    by (simp only: floor_less_iff sc_def n_def)
qed

lemma candidates_member:
  assumes "s \<in> set (candidates x k)"
  shows "fl (of_int s * ipow 10 (decimal_exponent x - int k)) = Finite x"
    and "s = \<lfloor>x / ipow 10 (decimal_exponent x - int k)\<rfloor>
         \<or> s = \<lfloor>x / ipow 10 (decimal_exponent x - int k)\<rfloor> + 1"
  using assms by (auto simp add: candidates_def Let_def split: if_splits)

lemma candidates_exact:
  assumes "is_double x" and "x \<in> \<int>" and "1 \<le> x"
  shows "candidates x (nat (decimal_exponent x)) \<noteq> []"
proof -
  obtain j where j: "x = of_int j" using assms(2) by (auto elim: Ints_cases)
  have n: "int (nat (decimal_exponent x)) = decimal_exponent x"
    using decimal_exponent_bounds(3) [OF assms(3)] by simp
  have "fl (of_int j) = Finite (of_int j)" using assms(1) by (simp add: is_double_def j)
  then have "j \<in> set (candidates x (nat (decimal_exponent x)))"
    unfolding candidates_def n by (simp add: Let_def ipow_def j)
  then show ?thesis by auto
qed

lemma floorlog_10_eq:
  assumes "10 ^ (k - 1) \<le> s" and "s < 10 ^ k" and "1 \<le> k"
  shows "floorlog 10 s = k"
proof -
  have "floorlog 10 s \<le> k" using assms(2) by (simp add: floorlog_le_iff)
  moreover have "k \<le> floorlog 10 s" using assms(1) by (intro floorlog_geI) simp_all
  ultimately show ?thesis by simp
qed

lemma find_SomeD:
  assumes "find P xs = Some x"
  shows "x \<in> set xs" and "P x"
  using assms by (auto simp add: find_Some_iff)

lemma shortest_digits_large:
  assumes x: "10 ^ 21 \<le> x"
  shows "\<exists>s n k. shortest_digits x = (s, n) \<and> 1 \<le> k \<and> length (decimal s) = k \<and> 1 \<le> s
           \<and> 21 < n \<and> (is_double x \<longrightarrow> fl (of_nat s * ipow 10 (n - int k)) = Finite x)"
proof -
  have "(1::rat) \<le> 10 ^ 21" by simp
  then have x1: "1 \<le> x" using x by (rule order_trans)
  define n0 where "n0 = decimal_exponent x"
  define bound where "bound = max 17 (nat n0)"
  define found where "found = find (\<lambda>k. candidates x k \<noteq> []) [1 ..< Suc bound]"
  define k where "k = (case found of Some k \<Rightarrow> k | None \<Rightarrow> bound)"
  define sc where "sc = ipow 10 (n0 - int k)"
  define lo where "lo = \<lfloor>x / sc\<rfloor>"
  define si where "si = (case candidates x k of s # _ \<Rightarrow> s | [] \<Rightarrow> lo)"
  have n0: "21 < n0" using decimal_exponent_large [OF x] by (simp add: n0_def)
  have k1: "1 \<le> k"
  proof (cases found)
    case None
    then show ?thesis by (simp add: k_def bound_def)
  next
    case (Some j)
    then have "j \<in> set [1 ..< Suc bound]" unfolding found_def by (rule find_SomeD(1))
    then have "1 \<le> j" by auto
    then show ?thesis using Some by (simp add: k_def)
  qed
  have lo: "10 ^ (k - 1) \<le> lo" "lo < 10 ^ k"
    using floor_scaled_bounds [OF x1 k1] by (simp_all add: lo_def sc_def n0_def)
  have si: "si = lo \<or> si = lo + 1"
  proof (cases "candidates x k")
    case Nil
    then show ?thesis by (simp add: si_def)
  next
    case (Cons s ss)
    then have "s \<in> set (candidates x k)" by simp
    then show ?thesis
      using candidates_member(2) [of s x k] Cons by (simp add: si_def lo_def sc_def n0_def)
  qed
  have rt: "fl (of_int si * sc) = Finite x" if d: "is_double x"
  proof -
    have "(2::rat) ^ 52 \<le> 10 ^ 21" by simp
    then have "2 ^ 52 \<le> \<bar>x\<bar>" using x by linarith
    then have "x \<in> \<int>" using d by (rule is_double_integer [rotated])
    then have ex: "candidates x (nat n0) \<noteq> []"
      using candidates_exact [OF d _ x1] by (simp add: n0_def)
    have "nat n0 \<in> set [1 ..< Suc bound]" using n0 by (simp add: bound_def)
    then have "found \<noteq> None" using ex by (auto simp add: found_def find_None_iff)
    then obtain j where j: "found = Some j" by auto
    then have "candidates x j \<noteq> []" unfolding found_def by (rule find_SomeD(2))
    then obtain s ss where c: "candidates x k = s # ss"
      using j by (cases "candidates x k") (auto simp add: k_def)
    then have "s \<in> set (candidates x k)" by simp
    then show ?thesis
      using candidates_member(1) [of s x k] c by (simp add: si_def sc_def n0_def)
  qed
  have sd: "shortest_digits x = (if si = 10 ^ k then (10 ^ (k - 1), n0 + 1) else (nat si, n0))"
    unfolding shortest_digits_def Let_def si_def lo_def sc_def k_def found_def bound_def n0_def
    by (rule refl)
  show ?thesis
  proof (cases "si = 10 ^ k")
    case True
    have "floorlog 10 ((10::nat) ^ (k - 1)) = k"
      using floorlog_power [of 1 10 "k - 1"] k1 by (simp add: compute_floorlog)
    then have len: "length (decimal (10 ^ (k - 1))) = k" by (simp add: length_decimal)
    have "n0 + 1 - int k = 1 + (n0 - int k)" by simp
    then have "ipow 10 (n0 + 1 - int k) = 10 * sc"
      using ipow_add [of 10 1 "n0 - int k"] by (simp only: sc_def) (simp add: ipow_def [of 10 1])
    moreover have "(10::rat) ^ k = 10 ^ (k - 1) * 10"
      using k1 by (cases k) simp_all
    ultimately have v: "of_nat (10 ^ (k - 1)) * ipow 10 (n0 + 1 - int k) = of_int si * sc"
      using True by simp
    show ?thesis
      using sd True len k1 n0 rt v
      by (intro exI [of _ "10 ^ (k - 1)"] exI [of _ "n0 + 1"] exI [of _ k]) simp
  next
    case False
    then have b: "10 ^ (k - 1) \<le> si" "si < 10 ^ k" using si lo by auto
    have "(0::int) < 10 ^ (k - 1)" by simp
    then have s0: "0 < si" using b(1) by linarith
    have "int (10 ^ (k - 1)) \<le> si" "si < int (10 ^ k)" using b by simp_all
    then have nb: "10 ^ (k - 1) \<le> nat si" "nat si < 10 ^ k" using s0 by linarith+
    then have "floorlog 10 (nat si) = k" using k1 by (rule floorlog_10_eq)
    then have len: "length (decimal (nat si)) = k" using s0 by (simp add: length_decimal)
    have v: "(of_nat (nat si) :: rat) = of_int si" using s0 by simp
    show ?thesis
      using sd False len k1 n0 rt s0
      by (intro exI [of _ "nat si"] exI [of _ n0] exI [of _ k]) (simp add: sc_def)
  qed
qed

lemma toFixed_large:
  assumes x: "10 ^ 21 \<le> \<bar>x\<bar>"
  shows "\<exists>d cs n. toFixed (Finite x) f
            = (if x < 0 then ''-'' else []) @ digit_char d
                # (if cs = [] then [] else CHR ''.'' # cs) @ exponent_part n
          \<and> 1 \<le> d \<and> d \<le> 9 \<and> (\<forall>c \<in> set cs. is_digit c)
          \<and> (is_double \<bar>x\<bar> \<longrightarrow>
               fl (of_nat (digits_val (digit_char d # cs)) * ipow 10 (n - 1 - int (length cs)))
               = Finite \<bar>x\<bar>)"
proof -
  obtain s n k where sd: "shortest_digits \<bar>x\<bar> = (s, n)" and k: "1 \<le> k"
    and len: "length (decimal s) = k" and s: "1 \<le> s" and n: "21 < n"
    and rt: "is_double \<bar>x\<bar> \<Longrightarrow> fl (of_nat s * ipow 10 (n - int k)) = Finite \<bar>x\<bar>"
    using shortest_digits_large [OF x] by blast
  obtain c cs where ds: "decimal s = c # cs"
    using decimal_not_Nil [of s] by (cases "decimal s") auto
  obtain d where d: "1 \<le> d" "d \<le> 9" "c = digit_char d"
    using hd_decimal [of s] s ds by auto
  have cs: "\<forall>c \<in> set cs. is_digit c" using decimal_digits [of _ s] ds by simp
  have kk: "int k = 1 + int (length cs)" using len ds by simp
  have ax: "(if x < 0 then - x else x) = \<bar>x\<bar>" by simp
  have pos: "\<bar>x\<bar> \<noteq> 0" "\<not> \<bar>x\<bar> < 0" using x by auto
  have pt: "positive_toString \<bar>x\<bar>
            = c # (if cs = [] then [] else CHR ''.'' # cs) @ exponent_part n"
    using n by (simp add: positive_toString_def sd ds)
  have tf: "toFixed (Finite x) f = (if x < 0 then ''-'' else []) @ positive_toString \<bar>x\<bar>"
    using x pos by (simp add: toFixed.simps Let_def ax del: abs_if)
  have nk: "n - int k = n - 1 - int (length cs)" using kk by simp
  have dv: "digits_val (digit_char d # cs) = s" using digits_val_decimal [of s] ds d by simp
  have "is_double \<bar>x\<bar> \<longrightarrow>
        fl (of_nat (digits_val (digit_char d # cs)) * ipow 10 (n - 1 - int (length cs)))
        = Finite \<bar>x\<bar>"
    using rt by (simp only: dv nk [symmetric]) simp
  moreover have "toFixed (Finite x) f
      = (if x < 0 then ''-'' else []) @ digit_char d
          # (if cs = [] then [] else CHR ''.'' # cs) @ exponent_part n"
    using tf pt d(3) by simp
  ultimately show ?thesis
    using d(1,2) cs by (intro exI [of _ d] exI [of _ cs] exI [of _ n]) simp
qed

lemma hd_exponent_part: "exponent_part n = [] \<or> hd (exponent_part n) = CHR ''e''"
  by (simp add: exponent_part_def)

lemma signed_small_digit:
  assumes "d \<le> 9"
  shows "signed neg (of_nat d) = Finite (if neg then - of_nat d else of_nat d)"
proof -
  have "\<bar>int d\<bar> \<le> 2 ^ 53" "\<bar>- int d\<bar> \<le> 2 ^ 53" using assms by simp_all
  then show ?thesis
    using fl_of_int [of "int d"] fl_of_int [of "- int d"] by (simp add: signed_def)
qed

lemma parseInt_toFixed_large:
  assumes x: "10 ^ 21 \<le> \<bar>x\<bar>"
  shows "\<exists>d. 1 \<le> d \<and> d \<le> 9
           \<and> parseInt (toFixed (Finite x) f) = Finite (if x < 0 then - of_nat d else of_nat d)"
proof -
  obtain d cs n where t: "toFixed (Finite x) f
            = (if x < 0 then ''-'' else []) @ digit_char d
                # (if cs = [] then [] else CHR ''.'' # cs) @ exponent_part n"
    and d: "1 \<le> d" "d \<le> 9"
    using toFixed_large [OF x, of f] by blast
  define r where "r = (if cs = [] then [] else CHR ''.'' # cs) @ exponent_part n"
  have r: "r = [] \<or> hd r = CHR ''.'' \<or> hd r = CHR ''e''"
    using hd_exponent_part [of n] by (auto simp add: r_def)
  have c: "is_digit (digit_char d)" using d by (simp add: is_digit_digit_char)
  have "parseInt (toFixed (Finite x) f) = signed (x < 0) (of_nat (digits_val [digit_char d]))"
    using parseInt_form [of "digit_char d" "[]" r "x < 0", OF c _ r] t by (simp add: r_def)
  then show ?thesis
    using d signed_small_digit [of d "x < 0"]
    by (auto simp add: digits_val_single digit_val_digit_char)
qed

lemma is_double_abs: "is_double x \<Longrightarrow> is_double \<bar>x\<bar>"
  using fl_minus [of x] by (auto simp add: is_double_def abs_if)

lemma parseFloat_toFixed_large:
  assumes x: "10 ^ 21 \<le> \<bar>x\<bar>" and dbl: "is_double x"
  shows "parseFloat (toFixed (Finite x) f) = Finite x"
proof -
  obtain d cs n where t: "toFixed (Finite x) f
            = (if x < 0 then ''-'' else []) @ digit_char d
                # (if cs = [] then [] else CHR ''.'' # cs) @ exponent_part n"
    and d: "1 \<le> d" "d \<le> 9" and cs: "\<And>c. c \<in> set cs \<Longrightarrow> is_digit c"
    and rt: "fl (of_nat (digits_val (digit_char d # cs)) * ipow 10 (n - 1 - int (length cs)))
             = Finite \<bar>x\<bar>"
    using toFixed_large [OF x, of f] is_double_abs [OF dbl] by blast
  define v where "v = of_nat (digits_val (digit_char d # cs)) * ipow 10 (n - 1 - int (length cs))"
  have c: "is_digit (digit_char d)" using d by (simp add: is_digit_digit_char)
  have pf: "parseFloat (toFixed (Finite x) f) = signed (x < 0) v"
  proof (cases "cs = []")
    case True
    then show ?thesis
      using parseFloat_int_form [of "digit_char d" "[]" "exponent_part n" "x < 0", OF c _
          hd_exponent_part] t
      by (simp add: parse_exponent_part v_def)
  next
    case False
    have "ipow 10 (n - 1) = ipow 10 (n - 1 - int (length cs)) * ipow 10 (int (length cs))"
      using ipow_add [of 10 "n - 1 - int (length cs)" "int (length cs)"] by simp
    then have "ipow 10 (n - 1) / 10 ^ length cs = ipow 10 (n - 1 - int (length cs))"
      by (simp add: ipow_nat)
    then have "a * ipow 10 (n - 1) / 10 ^ length cs = a * ipow 10 (n - 1 - int (length cs))"
      for a by (metis times_divide_eq_right)
    then show ?thesis
      using parseFloat_frac_form [of "digit_char d" "[]" cs "exponent_part n" "x < 0", OF c _ cs
          hd_exponent_part] t False
      by (simp add: parse_exponent_part v_def)
  qed
  have fv: "fl v = Finite \<bar>x\<bar>" using rt by (simp add: v_def)
  show ?thesis
  proof (cases "x < 0")
    case True
    then show ?thesis using pf fv fl_minus [of v] by (simp add: signed_def)
  next
    case False
    then show ?thesis using pf fv by (simp add: signed_def)
  qed
qed

lemma floor_add_half: "\<lfloor>of_int j + (1 / 2 :: rat)\<rfloor> = j"
  by (rule floor_unique) simp_all

lemma round_half_away_of_int: "round_half_away (of_int j) = j"
  using floor_add_half [of j] floor_add_half [of "- j"] by (simp add: round_half_away_def)

lemma round_to_precision_large:
  assumes x: "10 ^ 21 \<le> \<bar>x\<bar>" and dbl: "is_double x"
  shows "round_to_precision (Finite x) f = Finite x"
proof -
  have "(2::rat) ^ 52 \<le> 10 ^ 21" by simp
  then have "2 ^ 52 \<le> \<bar>x\<bar>" using x by (rule order_trans)
  then have "x \<in> \<int>" using dbl by (rule is_double_integer [rotated])
  then obtain j where j: "x = of_int j" by (auto elim: Ints_cases)
  have "x * 10 ^ f = of_int (j * 10 ^ f)" by (simp add: j)
  then have "round_half_away (x * 10 ^ f) = j * 10 ^ f"
    by (simp only: round_half_away_of_int)
  then show ?thesis using dbl by (simp add: j is_double_def)
qed

text \<open>The route through the digit string agrees with rounding to \<open>f\<close> decimal digits.\<close>

lemma parseFloat_toFixed:
  assumes "is_double x"
  shows "parseFloat (toFixed (Finite x) f) = round_to_precision (Finite x) f"
proof (cases "\<bar>x\<bar> < 10 ^ 21")
  case True
  then show ?thesis by (rule parseFloat_toFixed_round)
next
  case False
  then have "10 ^ 21 \<le> \<bar>x\<bar>" by simp
  then show ?thesis
    using parseFloat_toFixed_large [of x f] round_to_precision_large [of x f] assms by simp
qed

lemma parseFloat_toFixed_special:
  "parseFloat (toFixed NaN f) = NaN"
  "parseFloat (toFixed PosInfinity f) = PosInfinity"
  "parseFloat (toFixed NegInfinity f) = NegInfinity"
  by (simp_all add: toFixed.simps parseFloat_def split_sign_def is_space_def is_digit_def)

lemma parseInt_toFixed_special:
  "parseInt (toFixed NaN f) = NaN"
  "parseInt (toFixed PosInfinity f) = NaN"
  "parseInt (toFixed NegInfinity f) = NaN"
  by (simp_all add: toFixed.simps parseInt_def split_sign_def is_space_def is_digit_def)

subsection \<open>The stored value\<close>

lemma js_mul_double: "js_mul a b = Finite p \<Longrightarrow> is_double p"
  by (cases a; cases b) (auto simp add: is_double_def split: if_splits intro: fl_idem)

lemma js_div_double: "js_div a b = Finite p \<Longrightarrow> is_double p"
  by (cases a; cases b) (auto simp add: is_double_def fl_zero split: if_splits intro: fl_idem)

lemma abs_round_half_away: "\<bar>round_half_away x\<bar> = \<lfloor>\<bar>x\<bar> + 1 / 2\<rfloor>"
proof (cases "0 \<le> x")
  case True
  then have "0 \<le> \<lfloor>x + 1 / 2\<rfloor>" by simp
  then show ?thesis using True by (simp add: round_half_away_def)
next
  case False
  then have "0 \<le> \<lfloor>- x + 1 / 2\<rfloor>" by simp
  then show ?thesis using False by (simp add: round_half_away_def)
qed

lemma round_half_away_double:
  assumes d: "is_double p" and b: "\<bar>p\<bar> < 10 ^ 21"
  shows "fl (of_int (round_half_away p)) = Finite (of_int (round_half_away p))"
    and "\<bar>of_int (round_half_away p) :: rat\<bar> < 10 ^ 21"
proof -
  have "fl (of_int (round_half_away p)) = Finite (of_int (round_half_away p))
        \<and> \<bar>of_int (round_half_away p) :: rat\<bar> < 10 ^ 21"
  proof (cases "\<bar>p\<bar> < 2 ^ 52")
    case True
    then have "\<bar>p\<bar> + 1 / 2 < of_int (2 ^ 52) + 1" by simp
    then have "\<lfloor>\<bar>p\<bar> + 1 / 2\<rfloor> \<le> 2 ^ 52" by (simp only: floor_le_iff)
    then have le: "\<bar>round_half_away p\<bar> \<le> 2 ^ 52" by (simp only: abs_round_half_away)
    then have "\<bar>round_half_away p\<bar> \<le> 2 ^ 53" by simp
    then have "fl (of_int (round_half_away p)) = Finite (of_int (round_half_away p))"
      by (rule fl_of_int)
    moreover have "(of_int \<bar>round_half_away p\<bar> :: rat) \<le> of_int (2 ^ 52)"
      using le by (simp only: of_int_le_iff)
    then have "\<bar>of_int (round_half_away p) :: rat\<bar> < 10 ^ 21" by simp
    ultimately show ?thesis by simp
  next
    case False
    then have "2 ^ 52 \<le> \<bar>p\<bar>" by simp
    then have "p \<in> \<int>" using d by (rule is_double_integer [rotated])
    then obtain j where j: "p = of_int j" by (auto elim: Ints_cases)
    then have "of_int (round_half_away p) = p" by (simp add: round_half_away_of_int)
    then show ?thesis using d b by (simp add: is_double_def)
  qed
  then show "fl (of_int (round_half_away p)) = Finite (of_int (round_half_away p))"
    and "\<bar>of_int (round_half_away p) :: rat\<bar> < 10 ^ 21" by simp_all
qed

lemma UNITS_known:
  "UNITS ''HC'' = Entry (10 ^ 8) 8" "UNITS ''mHC'' = Entry (10 ^ 5) 5"
  "UNITS ''uHC'' = Entry (10 ^ 2) 2" "UNITS ''bits'' = Entry (10 ^ 2) 2"
  "UNITS ''dbits'' = Entry (10 ^ 2) 2" "UNITS ''atoms'' = Entry 1 0"
  by (simp_all add: UNITS_def UNITS_entries_def)




lemma to_atoms:
  assumes "atomic (unit_value u)"
  shows "Unit_to u (Code ''atoms'') = Inr (unit_value u)"
proof (cases "unit_value u = NaN")
  case True
  then show ?thesis by (simp add: UNITS_known parseFloat_toFixed_special)
next
  case False
  then obtain n where n: "unit_value u = Finite (of_int n)" "\<bar>of_int n :: rat\<bar> < 10 ^ 21"
    "fl (of_int n) = Finite (of_int n)"
    using assms by (auto simp add: atomic_def)
  have "js_div (unit_value u) (Finite 1) = Finite (of_int n)" using n by simp
  moreover have "parseFloat (toFixed (Finite (of_int n)) 0) = Finite (of_int n)"
    using parseFloat_toFixed_round [OF n(2), of 0] n(3) by (simp add: round_half_away_of_int)
  ultimately show ?thesis using n by (simp add: UNITS_known)
qed

subsection \<open>A faster equation for evaluating the rounding\<close>

lemma fl_code [code]:
  "fl x =
     (if x = 0 then Finite 0
      else let q = quantum x; y = of_int (round_half_even (x / q)) * q
           in if 179769313486231590772930519078902473361797697894230657273430081157732675805500963132708477322407536021120113879871393357658789768814416622492847430639474124377767893424865485276302219601246094119453082952085005768838150682342462881473913110540827237163350510684586298239947245938479716304835356329624224137216 \<le> y then PosInfinity
              else if y \<le> - 179769313486231590772930519078902473361797697894230657273430081157732675805500963132708477322407536021120113879871393357658789768814416622492847430639474124377767893424865485276302219601246094119453082952085005768838150682342462881473913110540827237163350510684586298239947245938479716304835356329624224137216 then NegInfinity
              else Finite y)"
proof -
  have "(2::rat) ^ 1024 = 179769313486231590772930519078902473361797697894230657273430081157732675805500963132708477322407536021120113879871393357658789768814416622492847430639474124377767893424865485276302219601246094119453082952085005768838150682342462881473913110540827237163350510684586298239947245938479716304835356329624224137216" by simp
  then show ?thesis unfolding fl_def by (simp only:)
qed

subsection \<open>The constructor on a table entry\<close>

lemma Unit_new_Code_Entry:
  assumes "UNITS c = Entry s pr"
  shows "Unit_new amount (Code c)
         = Inr \<lparr>unit_value = parseInt (toFixed (js_mul amount (Finite s)) 0)\<rparr>"
  using assms by (simp add: Unit_new_def Unit_from_def)

lemma Unit_new_Rate:
  assumes "\<not> js_le_zero r"
  shows "Unit_new amount (Rate r) = Unit_new (js_div amount r) (Code ''HC'')"
  using assms by (simp add: Unit_new_def Unit_HC_def)

lemma gt_zero_not_le_zero: "js_gt_zero r \<Longrightarrow> \<not> js_le_zero r"
  by (cases r) auto

lemma stored_round_half_away:
  assumes "UNITS c = Entry s pr" and "js_mul amount (Finite s) = Finite p" and "\<bar>p\<bar> < 10 ^ 21"
  shows "Unit_new amount (Code c) = Inr \<lparr>unit_value = Finite (of_int (round_half_away p))\<rparr>"
    and "Unit_to \<lparr>unit_value = Finite (of_int (round_half_away p))\<rparr> (Code ''atoms'')
         = Inr (Finite (of_int (round_half_away p)))"
proof -
  have d: "is_double p" using assms(2) by (rule js_mul_double)
  have v: "parseInt (toFixed (Finite p) 0) = Finite (of_int (round_half_away p))"
    using parseInt_toFixed_round [OF assms(3)] round_half_away_double(1) [OF d assms(3)] by simp
  show "Unit_new amount (Code c) = Inr \<lparr>unit_value = Finite (of_int (round_half_away p))\<rparr>"
    using Unit_new_Code_Entry [OF assms(1), of amount] assms(2) v by simp
  have "atomic (Finite (of_int (round_half_away p)))"
    using round_half_away_double [OF d assms(3)] by (auto simp add: atomic_def)
  then show "Unit_to \<lparr>unit_value = Finite (of_int (round_half_away p))\<rparr> (Code ''atoms'')
         = Inr (Finite (of_int (round_half_away p)))"
    using to_atoms [of "\<lparr>unit_value = Finite (of_int (round_half_away p))\<rparr>"] by simp
qed

subsection \<open>Evaluations at the amount 1.3 and at 1e21\<close>

lemma literal_13_10: "literal (13 / 10) = Finite (5854679515581645 / 4503599627370496)"
  by code_simp

lemma mul_13_10_HC: "fl (5854679515581645 / 4503599627370496 * 10 ^ 8) = Finite 130000000"
  by code_simp

lemma mul_13_10_dbits: "fl (5854679515581645 / 4503599627370496 * 10 ^ 2) = Finite 130"
  by code_simp

lemma literal_13_10000: "fl (13 / 10000) = Finite (1498797955988901 / 1152921504606846976)"
  by code_simp

lemma fl_1e21: "fl 1000000000000000000000 = Finite 1000000000000000000000"
  by code_simp

lemma fl_2e21: "fl 2000000000000000000000 = Finite 2000000000000000000000"
  by code_simp


lemma digit_char_1: "digit_char (Suc 0) = CHR ''1''" "digit_char 2 = CHR ''2''"
  by code_simp+

lemma decimal_exponent_1e21: "decimal_exponent 1000000000000000000000 = 22"
  by (simp add: decimal_exponent_def compute_floorlog)

lemma candidates_1e21: "candidates 1000000000000000000000 (Suc 0) = [1]"
  using fl_1e21 fl_2e21 by (simp add: candidates_def Let_def decimal_exponent_1e21 ipow_def)

lemma shortest_digits_1e21: "shortest_digits 1000000000000000000000 = (1, 22)"
proof -
  have "[1 ..< Suc (max 17 (nat 22))] = Suc 0 # [2 ..< 23]" by (simp add: upt_conv_Cons)
  then have "find (\<lambda>k. candidates 1000000000000000000000 k \<noteq> [])
               [1 ..< Suc (max 17 (nat 22))] = Some (Suc 0)"
    by (simp only: find.simps candidates_1e21) simp
  then show ?thesis
    unfolding shortest_digits_def decimal_exponent_1e21 Let_def
    by (simp only: option.case candidates_1e21 list.case) simp
qed

lemma toFixed_1e21: "toFixed (Finite (10 ^ 21)) 0 = ''1e+21''"
proof -
  have "decimal 1 = ''1''" "decimal 21 = ''21''"
    by (simp_all add: decimal.simps digit_char_1)
  then have "positive_toString 1000000000000000000000 = ''1e+21''"
    by (simp add: positive_toString_def shortest_digits_1e21 exponent_part_def)
  then show ?thesis by (simp add: toFixed.simps)
qed

lemma parseInt_1e21: "parseInt (toFixed (Finite (10 ^ 21)) 0) = Finite 1"
  unfolding toFixed_1e21 by code_simp

subsection \<open>Rounding error and overflow\<close>

lemma fl_approx:
  assumes x: "\<bar>x\<bar> < ipow 2 e" and e: "- 1021 \<le> e"
    and b: "\<bar>x\<bar> + ipow 2 (e - 54) < 2 ^ 1024"
  shows "\<exists>q. fl x = Finite q \<and> \<bar>q - x\<bar> \<le> ipow 2 (e - 54)"
proof (cases "x = 0")
  case True
  then show ?thesis using ipow_pos [of 2 "e - 54"] by (simp add: fl_def)
next
  case False
  define qe where "qe = max (ilog2 \<bar>x\<bar> - 52) (- 1074)"
  define q where "q = ipow 2 qe"
  define y where "y = of_int (round_half_even (x / q)) * q"
  have qx: "quantum x = q" by (simp add: quantum_def q_def qe_def)
  have qpos: "0 < q" by (simp add: q_def ipow_pos)
  have "ipow 2 (ilog2 \<bar>x\<bar>) \<le> \<bar>x\<bar>" using ilog2_lower [of "\<bar>x\<bar>"] False by simp
  then have "ipow 2 (ilog2 \<bar>x\<bar>) < ipow 2 e" using x by linarith
  then have "ilog2 \<bar>x\<bar> < e" using ipow_less_cancel [of 2 "ilog2 \<bar>x\<bar>" e] by simp
  then have "qe \<le> e - 53" using e by (simp add: qe_def)
  then have "q \<le> ipow 2 (e - 53)" unfolding q_def by (intro ipow_mono) simp_all
  also have "ipow 2 (e - 53) = 2 * ipow 2 (e - 54)"
    using ipow_add [of 2 1 "e - 54"] by (simp add: ipow_def [of 2 1])
  finally have qle: "q / 2 \<le> ipow 2 (e - 54)" by simp
  have "y - x = (of_int (round_half_even (x / q)) - x / q) * q"
    using qpos by (simp add: y_def field_simps)
  then have "\<bar>y - x\<bar> = \<bar>of_int (round_half_even (x / q)) - x / q\<bar> * q"
    using qpos by (simp add: abs_mult)
  also have "\<dots> \<le> 1 / 2 * q"
    using round_half_even_error [of "x / q"] qpos by (intro mult_right_mono) simp_all
  finally have err: "\<bar>y - x\<bar> \<le> ipow 2 (e - 54)" using qle by simp
  then have "\<bar>y\<bar> < 2 ^ 1024" using b by linarith
  then have "\<not> 2 ^ 1024 \<le> y" "\<not> y \<le> - (2 ^ 1024)" by linarith+
  then have "fl x = Finite y" using False by (simp add: fl_def Let_def qx y_def)
  then show ?thesis using err by simp
qed

lemma fl_overflow:
  assumes "2 ^ 1024 \<le> x"
  shows "fl x = PosInfinity"
proof -
  have x0: "0 < x" using assms by (rule less_le_trans [rotated]) simp
  define E where "E = ilog2 \<bar>x\<bar>"
  define q where "q = ipow 2 (E - 52)"
  have qpos: "0 < q" by (simp add: q_def ipow_pos)
  have "ipow 2 1024 \<le> x" using assms by (simp add: ipow_def)
  also have "x < ipow 2 (E + 1)" using ilog2_upper [of "\<bar>x\<bar>"] x0 by (simp add: E_def)
  finally have E: "1024 \<le> E" using ipow_less_cancel [of 2 1024 "E + 1"] by simp
  then have qx: "quantum x = q" by (simp add: quantum_def q_def E_def)
  have low: "ipow 2 E \<le> x" using ilog2_lower [of "\<bar>x\<bar>"] x0 by (simp add: E_def)
  have split: "ipow 2 E = 2 ^ 52 * q"
    using ipow_add [of 2 52 "E - 52"] by (simp add: q_def ipow_2_numeral)
  then have "of_int (2 ^ 52) \<le> x / q" using low qpos by (simp add: field_simps)
  then have "2 ^ 52 \<le> \<lfloor>x / q\<rfloor>" by (simp only: le_floor_iff)
  then have "2 ^ 52 \<le> round_half_even (x / q)"
    using round_half_even_between(1) [of "x / q"] by linarith
  then have "(of_int (2 ^ 52) :: rat) \<le> of_int (round_half_even (x / q))"
    by (simp only: of_int_le_iff)
  then have "of_int (2 ^ 52) * q \<le> of_int (round_half_even (x / q)) * q"
    using qpos by (intro mult_right_mono) simp_all
  then have "ipow 2 E \<le> of_int (round_half_even (x / q)) * q" using split by simp
  moreover have "ipow 2 1024 \<le> ipow 2 E" using E by (intro ipow_mono) simp_all
  ultimately have "2 ^ 1024 \<le> of_int (round_half_even (x / q)) * q"
    by (simp add: ipow_def [of 2 1024])
  then show ?thesis using x0 by (simp add: fl_def Let_def qx)
qed


subsection \<open>Conversions of an integer amount\<close>

lemma parseFloat_toFixed_mul:
  "parseFloat (toFixed (js_mul a b) f) = round_to_precision (js_mul a b) f"
  using js_mul_double [of a b]
  by (cases "js_mul a b") (simp_all add: parseFloat_toFixed parseFloat_toFixed_special)

lemma parseInt_toFixed_integer:
  assumes "is_double p"
  shows "is_integer (parseInt (toFixed (Finite p) 0))"
proof (cases "\<bar>p\<bar> < 10 ^ 21")
  case True
  then show ?thesis
    using round_half_away_double(1) [OF assms True] by (simp add: parseInt_toFixed_round)
next
  case False
  then have "10 ^ 21 \<le> \<bar>p\<bar>" by simp
  then obtain k where "parseInt (toFixed (Finite p) 0)
      = Finite (if p < 0 then - of_nat k else of_nat k)"
    using parseInt_toFixed_large [of p 0] by blast
  then show ?thesis by simp
qed


subsection \<open>The examples of the specification\<close>

lemma literal_of_int: "\<bar>m\<bar> \<le> 2 ^ 53 \<Longrightarrow> literal (of_int m) = Finite (of_int m)"
  by (simp add: literal_def fl_of_int)

lemma literal_numerals:
  "literal 1 = Finite 1" "literal 350 = Finite 350" "literal 130000000 = Finite 130000000"
  "literal (10 ^ 13) = Finite (10 ^ 13)"
  using literal_of_int [of 1] literal_of_int [of 350] literal_of_int [of 130000000]
    literal_of_int [of "10 ^ 13"]
  by simp_all

lemma fl_numerals:
  "fl 1 = Finite 1" "fl (10 ^ 8) = Finite (10 ^ 8)" "fl (10 ^ 13) = Finite (10 ^ 13)"
  using fl_of_int [of 1] fl_of_int [of "10 ^ 8"] fl_of_int [of "10 ^ 13"] by simp_all

lemma round_half_away_numerals:
  "round_half_away 130000000 = 130000000" "round_half_away 130 = 130"
  "round_half_away (10 ^ 21) = 10 ^ 21" "round_half_away (10 ^ 8) = 10 ^ 8"
  using round_half_away_of_int [of 130000000] round_half_away_of_int [of 130]
    round_half_away_of_int [of "10 ^ 21"] round_half_away_of_int [of "10 ^ 8"]
  by simp_all

lemma product_13_10_HC: "js_mul (literal (13 / 10)) (Finite (10 ^ 8)) = Finite 130000000"
  using mul_13_10_HC by (simp add: literal_13_10)

lemma product_13_10_dbits: "js_mul (literal (13 / 10)) (Finite (10 ^ 2)) = Finite 130"
  using mul_13_10_dbits by (simp add: literal_13_10)

lemma fromHC_13_10:
  "Unit_new (literal (13 / 10)) (Code ''HC'') = Inr \<lparr>unit_value = Finite 130000000\<rparr>"
  "Unit_to \<lparr>unit_value = Finite 130000000\<rparr> (Code ''atoms'') = Inr (Finite 130000000)"
  using stored_round_half_away [OF UNITS_known(1) product_13_10_HC]
  by (simp_all add: round_half_away_numerals)

lemma fromMicros_13_10:
  "Unit_new (literal (13 / 10)) (Code ''dbits'') = Inr \<lparr>unit_value = Finite 130\<rparr>"
  using stored_round_half_away(1) [OF UNITS_known(5) product_13_10_dbits]
  by (simp add: round_half_away_numerals)

lemma round_13_10000:
  "round_half_away (1498797955988901 / 1152921504606846976 * 10 ^ 5) = 130"
  by code_simp

lemma to_mHC_130:
  "Unit_to \<lparr>unit_value = Finite 130\<rparr> (Code ''mHC'') = Inr (literal (13 / 10000))"
proof -
  have d: "js_div (Finite 130) (Finite (10 ^ 5)) = Finite (1498797955988901 / 1152921504606846976)"
    using literal_13_10000 by simp
  have "parseFloat (toFixed (Finite (1498797955988901 / 1152921504606846976)) 5)
        = round_to_precision (Finite (1498797955988901 / 1152921504606846976)) 5"
    by (rule parseFloat_toFixed_round) simp
  also have "\<dots> = fl (13 / 10000)" using round_13_10000 by simp
  finally show ?thesis using d by (simp add: UNITS_known literal_def)
qed



lemma div_13_10_350:
  "fl (5854679515581645 / 4503599627370496 / 350)
   = Finite (4282279874254003 / 1152921504606846976)"
  by code_simp

lemma mul_13_10_350:
  "fl (4282279874254003 / 1152921504606846976 * 10 ^ 8)
   = Finite (6381094268342857 / 17179869184)"
  by code_simp


lemma product_13_10_350:
  "js_mul (js_div (literal (13 / 10)) (literal 350)) (Finite (10 ^ 8))
   = Finite (6381094268342857 / 17179869184)"
  using div_13_10_350 mul_13_10_350 by (simp add: literal_13_10 literal_numerals)

lemma literal_1e308:
  "\<exists>a. literal (10 ^ 308) = Finite a \<and> 10 ^ 308 - 2 ^ 970 \<le> a"
proof -
  have "\<bar>10 ^ 308 :: rat\<bar> < ipow 2 1024" by (simp add: ipow_def)
  moreover have "\<bar>10 ^ 308 :: rat\<bar> + ipow 2 (1024 - 54) < 2 ^ 1024" by (simp add: ipow_def)
  ultimately obtain a where "fl (10 ^ 308) = Finite a"
    and "\<bar>a - 10 ^ 308\<bar> \<le> ipow 2 (1024 - 54)"
    using fl_approx [of "10 ^ 308" 1024] by auto
  moreover have "ipow 2 (1024 - 54) = 2 ^ 970" by (simp add: ipow_def)
  ultimately have "literal (10 ^ 308) = Finite a \<and> 10 ^ 308 - 2 ^ 970 \<le> a"
    unfolding literal_def by linarith
  then show ?thesis ..
qed

lemma Unit_new_1e308:
  "Unit_new (literal (10 ^ 308)) (Code ''HC'') = Inr \<lparr>unit_value = NaN\<rparr>"
proof -
  obtain a where a: "literal (10 ^ 308) = Finite a" and low: "10 ^ 308 - 2 ^ 970 \<le> a"
    using literal_1e308 by blast
  have "(2::rat) ^ 1024 \<le> (10 ^ 308 - 2 ^ 970) * 10 ^ 8" by simp
  also have "\<dots> \<le> a * 10 ^ 8" using low by (intro mult_right_mono) simp_all
  finally have "fl (a * 10 ^ 8) = PosInfinity" by (rule fl_overflow)
  then have "js_mul (literal (10 ^ 308)) (Finite (10 ^ 8)) = PosInfinity"
    unfolding a by simp
  then show ?thesis
    using Unit_new_Code_Entry [OF UNITS_known(1), of "literal (10 ^ 308)"]
    by (simp only: parseInt_toFixed_special)
qed

section \<open>The claims\<close>

subsection \<open>C1\<close>

text \<open>
  C1 (as stated) at the amount \<open>1e21\<close> in atoms: the product is \<open>1e21\<close>, \<open>toFixed\<close> switches
  to exponent notation, \<open>'1e+21'\<close>, \<open>parseInt\<close> reads the digit before the \<open>e\<close>, and the
  Unit stores 1 where rounding the product gives \<open>1e21\<close>.
\<close>

theorem stored_amount_1e21_counterexample:
  "js_mul (Finite (10 ^ 21)) (Finite 1) = Finite (10 ^ 21)
   \<and> UNITS ''atoms'' = Entry 1 0
   \<and> Unit_new (Finite (10 ^ 21)) (Code ''atoms'') = Inr \<lparr>unit_value = Finite 1\<rparr>
   \<and> Unit_toAtoms \<lparr>unit_value = Finite 1\<rparr> = Inr (Finite 1)
   \<and> Finite 1 \<noteq> Finite (of_int (round_half_away (10 ^ 21)))"
proof -
  have m: "js_mul (Finite (10 ^ 21)) (Finite 1) = Finite (10 ^ 21)" using fl_1e21 by simp
  have n: "Unit_new (Finite (10 ^ 21)) (Code ''atoms'') = Inr \<lparr>unit_value = Finite 1\<rparr>"
    using Unit_new_Code_Entry [OF UNITS_known(6), of "Finite (10 ^ 21)"] parseInt_1e21
    by (simp only: m)
  have "atomic (Finite (of_int 1))" using fl_numerals(1) by (simp add: atomic_def)
  then have a: "Unit_toAtoms \<lparr>unit_value = Finite 1\<rparr> = Inr (Finite 1)"
    using to_atoms [of "\<lparr>unit_value = Finite 1\<rparr>"] by (simp add: Unit_toAtoms_def Unit_atoms_def)
  have r: "round_half_away 1000000000000000000000 = 1000000000000000000000"
    using round_half_away_of_int [of 1000000000000000000000] by simp
  show ?thesis using m n a by (simp add: UNITS_known r)
qed

text \<open>
  C1 (amended): for every amount and every code of the table, if the product
  \<open>amount * scaleFactor(code)\<close>, as the Number arithmetic computes it, is finite and below
  \<open>1e21\<close> in magnitude, the constructor stores that product rounded to the nearest integer,
  a tie going away from zero, and \<open>toAtoms()\<close> returns exactly that integer. In particular
  \<open>Unit.fromHC(1.3).toAtoms()\<close> is 130000000 and \<open>Unit.fromMicros(1.3).to('mHC')\<close> is 0.0013.
\<close>

theorem stored_amount_rounded:
  "(UNITS c = Entry s pr \<longrightarrow> js_mul amount (Finite s) = Finite p \<longrightarrow> \<bar>p\<bar> < 10 ^ 21 \<longrightarrow>
      (\<exists>u. Unit_new amount (Code c) = Inr u
           \<and> unit_value u = Finite (of_int (round_half_away p))
           \<and> Unit_toAtoms u = Inr (Finite (of_int (round_half_away p)))))
   \<and> (\<exists>u. Unit_fromHC (literal (13 / 10)) = Inr u \<and> Unit_toAtoms u = Inr (literal 130000000))
   \<and> (\<exists>u. Unit_fromMicros (literal (13 / 10)) = Inr u
           \<and> Unit_to u (Code Unit_mHC) = Inr (literal (13 / 10000)))"
proof (intro conjI impI)
  assume "UNITS c = Entry s pr" and "js_mul amount (Finite s) = Finite p" and "\<bar>p\<bar> < 10 ^ 21"
  then show "\<exists>u. Unit_new amount (Code c) = Inr u
           \<and> unit_value u = Finite (of_int (round_half_away p))
           \<and> Unit_toAtoms u = Inr (Finite (of_int (round_half_away p)))"
    using stored_round_half_away [of c s pr amount p]
    by (simp add: Unit_toAtoms_def Unit_atoms_def)
next
  show "\<exists>u. Unit_fromHC (literal (13 / 10)) = Inr u \<and> Unit_toAtoms u = Inr (literal 130000000)"
    using fromHC_13_10
    by (simp add: Unit_fromHC_def Unit_HC_def Unit_toAtoms_def Unit_atoms_def literal_numerals)
next
  show "\<exists>u. Unit_fromMicros (literal (13 / 10)) = Inr u
           \<and> Unit_to u (Code Unit_mHC) = Inr (literal (13 / 10000))"
    using fromMicros_13_10 to_mHC_130
    by (simp add: Unit_fromMicros_def Unit_dbits_def Unit_mHC_def)
qed

theorem stored_amount_rounded_witness:
  "UNITS ''HC'' = Entry (10 ^ 8) 8
   \<and> js_mul (literal (13 / 10)) (Finite (10 ^ 8)) = Finite 130000000
   \<and> \<bar>130000000 :: rat\<bar> < 10 ^ 21
   \<and> (\<exists>u. Unit_new (literal (13 / 10)) (Code ''HC'') = Inr u
           \<and> unit_value u = Finite 130000000
           \<and> Unit_toAtoms u = Inr (Finite 130000000))"
proof -
  have h1: "UNITS ''HC'' = Entry (10 ^ 8) 8" by (rule UNITS_known)
  have h2: "js_mul (literal (13 / 10)) (Finite (10 ^ 8)) = Finite 130000000"
    by (rule product_13_10_HC)
  have h3: "\<bar>130000000 :: rat\<bar> < 10 ^ 21" by simp
  have "\<exists>u. Unit_new (literal (13 / 10)) (Code ''HC'') = Inr u
           \<and> unit_value u = Finite (of_int (round_half_away 130000000))
           \<and> Unit_toAtoms u = Inr (Finite (of_int (round_half_away 130000000)))"
    using stored_amount_rounded [THEN conjunct1, rule_format, OF h1 h2 h3] .
  then show ?thesis using h1 h2 h3 by (simp only: round_half_away_numerals) simp
qed

subsection \<open>C2\<close>




subsection \<open>C3\<close>



subsection \<open>C4\<close>

text \<open>
  C4: a rate \<open>r <= 0\<close> makes the constructor, \<open>to\<close> and \<open>atRate\<close> raise InvalidRate carrying
  \<open>r\<close>; with \<open>r > 0\<close> the constructor is \<open>Unit(amount / r, 'HC')\<close> and returns a Unit, and
  \<open>to(r)\<close> and \<open>atRate(r)\<close> return the value in HC times \<open>r\<close>, rounded to 2 decimal digits.
\<close>

theorem rate_conversions:
  "(js_le_zero r \<longrightarrow>
      Unit_new amount (Rate r) = Inl (InvalidRate r)
      \<and> Unit_to u (Rate r) = Inl (InvalidRate r)
      \<and> Unit_atRate u r = Inl (InvalidRate r))
   \<and> (js_gt_zero r \<longrightarrow>
      Unit_new amount (Rate r) = Unit_new (js_div amount r) (Code Unit_HC)
      \<and> (\<exists>w. Unit_new amount (Rate r) = Inr w)
      \<and> (\<exists>hc. Unit_toHC u = Inr hc
             \<and> Unit_to u (Rate r) = Inr (round_to_precision (js_mul hc r) 2)
             \<and> Unit_atRate u r = Inr (round_to_precision (js_mul hc r) 2)))"
proof (intro conjI impI)
  assume "js_le_zero r"
  then show "Unit_new amount (Rate r) = Inl (InvalidRate r)"
    and "Unit_to u (Rate r) = Inl (InvalidRate r)"
    and "Unit_atRate u r = Inl (InvalidRate r)"
    by (simp_all add: Unit_new_def Unit_atRate_def)
next
  assume "js_gt_zero r"
  then have n: "\<not> js_le_zero r" by (rule gt_zero_not_le_zero)
  show "Unit_new amount (Rate r) = Unit_new (js_div amount r) (Code Unit_HC)"
    using Unit_new_Rate [OF n] by (simp add: Unit_HC_def)
  show "\<exists>w. Unit_new amount (Rate r) = Inr w"
    using Unit_new_Rate [OF n, of amount]
      Unit_new_Code_Entry [OF UNITS_known(1), of "js_div amount r"] by simp
  show "\<exists>hc. Unit_toHC u = Inr hc
             \<and> Unit_to u (Rate r) = Inr (round_to_precision (js_mul hc r) 2)
             \<and> Unit_atRate u r = Inr (round_to_precision (js_mul hc r) 2)"
    using n by (simp add: Unit_toHC_def Unit_atRate_def Unit_HC_def UNITS_known
        parseFloat_toFixed_mul)
qed

theorem rate_conversions_witness:
  "js_le_zero (Finite 0)
   \<and> Unit_new (Finite 1) (Rate (Finite 0)) = Inl (InvalidRate (Finite 0))
   \<and> js_le_zero (Finite (- 5))
   \<and> Unit_new (Finite 1) (Rate (Finite (- 5))) = Inl (InvalidRate (Finite (- 5)))
   \<and> Unit_to \<lparr>unit_value = Finite 130000000\<rparr> (Rate (Finite (- 5)))
       = Inl (InvalidRate (Finite (- 5)))
   \<and> js_gt_zero (Finite 350)
   \<and> Unit_new (Finite 1) (Rate (Finite 350))
       = Unit_new (js_div (Finite 1) (Finite 350)) (Code Unit_HC)
   \<and> (\<exists>hc. Unit_toHC \<lparr>unit_value = Finite 130000000\<rparr> = Inr hc
          \<and> Unit_to \<lparr>unit_value = Finite 130000000\<rparr> (Rate (Finite 350))
              = Inr (round_to_precision (js_mul hc (Finite 350)) 2))"
proof -
  have z: "js_le_zero (Finite 0)" and m: "js_le_zero (Finite (- 5))"
    and p: "js_gt_zero (Finite 350)" by simp_all
  show ?thesis
    using rate_conversions [of "Finite 0" "Finite 1" "\<lparr>unit_value = Finite 130000000\<rparr>",
        THEN conjunct1, rule_format, OF z]
      rate_conversions [of "Finite (- 5)" "Finite 1" "\<lparr>unit_value = Finite 130000000\<rparr>",
        THEN conjunct1, rule_format, OF m]
      rate_conversions [of "Finite 350" "Finite 1" "\<lparr>unit_value = Finite 130000000\<rparr>",
        THEN conjunct2, rule_format, OF p]
      z m p
    by blast
qed

subsection \<open>C5\<close>

text \<open>
  C5 at \<open>'toString'\<close>, a string that is no key of the table: \<open>UNITS['toString']\<close> is the
  function inherited from \<open>Object.prototype\<close>, the test \<open>!UNITS[code]\<close> fails, and both the
  constructor and \<open>to\<close> go on with \<open>undefined\<close> for the scale factor: no UnknownCode is
  raised, the Unit stores NaN and the conversion returns NaN.
\<close>

theorem inherited_code_not_rejected:
  "''toString'' \<notin> set Object_keys_UNITS
   \<and> Unit_new (Finite 1) (Code ''toString'') = Inr \<lparr>unit_value = NaN\<rparr>
   \<and> Unit_to \<lparr>unit_value = Finite 1\<rparr> (Code ''toString'') = Inr NaN"
  by (simp add: Object_keys_UNITS_def UNITS_entries_def Unit_new_def Unit_from_def UNITS_def
      Object_prototype_def parseInt_toFixed_special parseFloat_toFixed_special)

text \<open>The rest of C5 holds: a code that is neither an entry nor a name inherited by an object
  literal is rejected, and \<open>fromObject\<close> rejects what is not an object.\<close>

lemma unknown_code_rejected:
  assumes "code \<notin> set Object_keys_UNITS" and "code \<notin> set Object_prototype"
  shows "Unit_new amount (Code code) = Inl (UnknownCode code)"
    and "Unit_to u (Code code) = Inl (UnknownCode code)"
proof -
  have "map_of UNITS_entries code = None"
    using assms(1) by (simp add: Object_keys_UNITS_def map_of_eq_None_iff)
  then have "UNITS code = Undefined" using assms(2) by (simp add: UNITS_def)
  then show "Unit_new amount (Code code) = Inl (UnknownCode code)"
    and "Unit_to u (Code code) = Inl (UnknownCode code)"
    by (simp_all add: Unit_new_def Unit_from_def)
qed

lemma fromObject_not_object:
  assumes "\<not> isObject d"
  shows "Unit_fromObject d = Inl (InvalidArgument ''Argument is expected to be an object'')"
  using assms by (simp add: Unit_fromObject_def checkArgument_def)

subsection \<open>C6\<close>

text \<open>
  C6: on every Unit, \<open>toObject()\<close> and \<open>toJSON()\<close> return the record whose \<open>amount\<close> is
  what \<open>to('HC')\<close> returns and whose \<open>code\<close> is \<open>'HC'\<close>; nothing of the denomination or
  rate given to the constructor is in it.
\<close>

theorem toObject_base_unit:
  "\<exists>v. Unit_to u (Code ''HC'') = Inr v
       \<and> Unit_toObject u = Inr \<lparr>object_amount = v, object_code = ''HC''\<rparr>
       \<and> Unit_toJSON u = Inr \<lparr>object_amount = v, object_code = ''HC''\<rparr>"
  by (simp add: Unit_toObject_def Unit_toJSON_def Unit_HC_def UNITS_known)

subsection \<open>C7\<close>

text \<open>
  C7 (as stated) at the finite amount \<open>1e308\<close> with the code \<open>'HC'\<close>: the product with
  \<open>1e8\<close> overflows to Infinity, \<open>toFixed\<close> gives \<open>'Infinity'\<close>, \<open>parseInt\<close> gives NaN, and the
  Unit stores NaN, which is no integer.
\<close>

theorem stored_amount_overflow_counterexample:
  "literal (10 ^ 308) \<notin> {NaN, PosInfinity, NegInfinity}
   \<and> UNITS ''HC'' = Entry (10 ^ 8) 8
   \<and> Unit_new (literal (10 ^ 308)) (Code ''HC'') = Inr \<lparr>unit_value = NaN\<rparr>
   \<and> \<not> is_integer (unit_value \<lparr>unit_value = NaN\<rparr>)"
  using literal_1e308 Unit_new_1e308 by (auto simp add: UNITS_known)

text \<open>
  C7 (amended): whenever the product formed at construction is a finite Number, that is
  \<open>amount * scaleFactor(code)\<close> for a code of the table and \<open>(amount / rate) * 1e8\<close> for a rate
  \<open>> 0\<close>, the constructor returns a Unit whose stored \<open>_value\<close> is an integer.
\<close>

theorem stored_amount_integer:
  "(UNITS c = Entry s pr \<longrightarrow> js_mul amount (Finite s) = Finite p \<longrightarrow>
      (\<exists>u. Unit_new amount (Code c) = Inr u \<and> is_integer (unit_value u)))
   \<and> (js_gt_zero r \<longrightarrow> js_mul (js_div amount r) (Finite (10 ^ 8)) = Finite p' \<longrightarrow>
      (\<exists>u. Unit_new amount (Rate r) = Inr u \<and> is_integer (unit_value u)))"
proof (intro conjI impI)
  assume "UNITS c = Entry s pr" and m: "js_mul amount (Finite s) = Finite p"
  then show "\<exists>u. Unit_new amount (Code c) = Inr u \<and> is_integer (unit_value u)"
    using Unit_new_Code_Entry [of c s pr amount] parseInt_toFixed_integer [OF js_mul_double [OF m]]
    by simp
next
  assume r: "js_gt_zero r" and m: "js_mul (js_div amount r) (Finite (10 ^ 8)) = Finite p'"
  show "\<exists>u. Unit_new amount (Rate r) = Inr u \<and> is_integer (unit_value u)"
    using Unit_new_Rate [OF gt_zero_not_le_zero [OF r], of amount]
      Unit_new_Code_Entry [OF UNITS_known(1), of "js_div amount r"]
      parseInt_toFixed_integer [OF js_mul_double [OF m]] m
    by simp
qed

theorem stored_amount_integer_witness:
  "UNITS ''HC'' = Entry (10 ^ 8) 8
   \<and> js_mul (literal (13 / 10)) (Finite (10 ^ 8)) = Finite 130000000
   \<and> (\<exists>u. Unit_new (literal (13 / 10)) (Code ''HC'') = Inr u \<and> is_integer (unit_value u))
   \<and> js_gt_zero (literal 350)
   \<and> js_mul (js_div (literal (13 / 10)) (literal 350)) (Finite (10 ^ 8))
       = Finite (6381094268342857 / 17179869184)
   \<and> (\<exists>u. Unit_new (literal (13 / 10)) (Rate (literal 350)) = Inr u
           \<and> is_integer (unit_value u))"
proof -
  have g: "js_gt_zero (literal 350)" by (simp add: literal_numerals)
  show ?thesis
    using stored_amount_integer [THEN conjunct1, rule_format, OF UNITS_known(1) product_13_10_HC]
      stored_amount_integer [THEN conjunct2, rule_format, OF g product_13_10_350]
      UNITS_known(1) product_13_10_HC g product_13_10_350
    by blast
qed

subsection \<open>C8\<close>



subsection \<open>C9\<close>

text \<open>C9 (as stated): strictly decreasing scale factors and precisions down the table.\<close>

theorem UNITS_not_strictly_decreasing:
  "\<not> sorted_wrt (>) (map (fst \<circ> snd) UNITS_entries)
   \<and> \<not> sorted_wrt (>) (map (snd \<circ> snd) UNITS_entries)"
  by (simp add: UNITS_entries_def)

text \<open>
  C9 (amended): down the table, from \<open>HC\<close> to \<open>atoms\<close>, scale factor and display precision
  never increase; they strictly decrease once the aliases \<open>uHC\<close>, \<open>bits\<close> and \<open>dbits\<close>,
  which share the scale factor 100 and the precision 2, are counted as one denomination;
  the entry of \<open>atoms\<close> has scale factor 1 and precision 0.
\<close>

theorem UNITS_decreasing:
  "sorted_wrt (\<ge>) (map (fst \<circ> snd) UNITS_entries)
   \<and> sorted_wrt (\<ge>) (map (snd \<circ> snd) UNITS_entries)
   \<and> sorted_wrt (>) (remdups_adj (map (fst \<circ> snd) UNITS_entries))
   \<and> sorted_wrt (>) (remdups_adj (map (snd \<circ> snd) UNITS_entries))
   \<and> remdups_adj (map snd UNITS_entries) = [(10 ^ 8, 8), (10 ^ 5, 5), (10 ^ 2, 2), (1, 0)]
   \<and> map fst (filter (\<lambda>e. snd e = (10 ^ 2, 2)) UNITS_entries) = [''uHC'', ''bits'', ''dbits'']
   \<and> last UNITS_entries = (''atoms'', 1, 0)
   \<and> UNITS ''atoms'' = Entry 1 0"
  by (simp add: UNITS_entries_def UNITS_def)

subsection \<open>C10\<close>

text \<open>
  C10: \<open>to('uHC')\<close>, \<open>to('bits')\<close> and \<open>to('dbits')\<close> return the same number on every Unit,
  and \<open>uHC\<close> is accepted wherever a code is: by \<open>to\<close>, by the constructor and as an accessor.
\<close>

theorem uHC_bits_dbits_agree:
  "Unit_to u (Code ''uHC'') = Unit_to u (Code ''bits'')
   \<and> Unit_to u (Code ''bits'') = Unit_to u (Code ''dbits'')
   \<and> (\<exists>v. Unit_to u (Code ''uHC'') = Inr v)
   \<and> accessor u ''uHC'' = Some (Unit_to u (Code ''bits''))
   \<and> Unit_new amount (Code ''uHC'') = Unit_new amount (Code ''bits'')
   \<and> Unit_new amount (Code ''bits'') = Unit_new amount (Code ''dbits'')
   \<and> (\<exists>w. Unit_new amount (Code ''uHC'') = Inr w)"
  by (simp add: UNITS_known Unit_new_def Unit_from_def accessor_def Object_keys_UNITS_def
      UNITS_entries_def)

end
